theory Spec2Isabelle
  imports Complex_Main "HOL-Library.Sublist" "HOL-Library.Multiset"
begin

section \<open>Strings and numbers of the scraper\<close>

text \<open>
  The scraper (\<^verbatim>\<open>scrape-official.js\<close>) works on JavaScript strings and numbers.
  A string is modelled as a \<^typ>\<open>string\<close> of ASCII characters. On ASCII input
  \<^verbatim>\<open>normalize("NFD")\<close> and the removal of combining marks change nothing, so
  \<^verbatim>\<open>foldAscii\<close> is \<^verbatim>\<open>toLowerCase\<close> there. A number is either \<^verbatim>\<open>NaN\<close> or a finite
  value, kept as an exact real: the rounding of a quotient to the nearest double and the
  infinities (reached only by numerals beyond the range of a double) are outside the model.
  \<^verbatim>\<open>null\<close> and \<^verbatim>\<open>undefined\<close> are \<^const>\<open>None\<close>.
\<close>

datatype number = NaN | Fin real

definition is_digit :: "char \<Rightarrow> bool" where
  "is_digit c = (c \<in> set ''0123456789'')"

text \<open>The class \<^verbatim>\<open>\s\<close> of a regular expression, on code units below 256.\<close>

definition is_space :: "char \<Rightarrow> bool" where
  "is_space c = (of_char c \<in> {9, 10, 11, 12, 13, 32, 160 :: nat})"

definition toLowerChar :: "char \<Rightarrow> char" where
  "toLowerChar c =
     (case map_of (zip ''ABCDEFGHIJKLMNOPQRSTUVWXYZ'' ''abcdefghijklmnopqrstuvwxyz'') c of
        Some l \<Rightarrow> l | None \<Rightarrow> c)"

definition foldAscii :: "string \<Rightarrow> string" where
  "foldAscii input = map toLowerChar input"

text \<open>\<^verbatim>\<open>s.includes(k)\<close>: \<open>k\<close> occurs in \<open>s\<close> as a contiguous substring.\<close>

fun str_includes :: "string \<Rightarrow> string \<Rightarrow> bool" where
  "str_includes [] k = (k = [])"
| "str_includes (c # cs) k = (prefix k (c # cs) \<or> str_includes cs k)"

subsection \<open>normalizeNumber\<close>

text \<open>
  \<^verbatim>\<open>Number(s)\<close> on the strings \<^verbatim>\<open>normalizeNumber\<close> passes to it. After the scrub and the
  separator rewrite such a string holds only digits, dots and minus signs; on those the
  numeric literals are an optional minus sign followed by \<^verbatim>\<open>d+\<close>, \<^verbatim>\<open>d+.d*\<close> or \<^verbatim>\<open>.d+\<close>, the
  empty string converts to 0 and everything else to \<^verbatim>\<open>NaN\<close>.
\<close>

definition digit_val :: "char \<Rightarrow> nat" where
  "digit_val c = of_char c - 48"

definition digits_val :: "string \<Rightarrow> nat" where
  "digits_val ds = foldl (\<lambda>acc c. 10 * acc + digit_val c) 0 ds"

definition unsigned_literal :: "string \<Rightarrow> real option" where
  "unsigned_literal s =
     (let ip = takeWhile is_digit s; r = dropWhile is_digit s in
      if r = [] then (if ip = [] then None else Some (real (digits_val ip)))
      else if hd r = CHR ''.'' \<and> list_all is_digit (tl r) \<and> (ip \<noteq> [] \<or> tl r \<noteq> [])
      then Some (real (digits_val ip) + real (digits_val (tl r)) / 10 ^ length (tl r))
      else None)"

definition js_Number :: "string \<Rightarrow> number" where
  "js_Number s =
     (if s = [] then Fin 0
      else if hd s = CHR ''-''
      then (case unsigned_literal (tl s) of None \<Rightarrow> NaN | Some v \<Rightarrow> Fin (- v))
      else (case unsigned_literal s of None \<Rightarrow> NaN | Some v \<Rightarrow> Fin v))"

text \<open>\<^verbatim>\<open>String(str).replace(/[^\d,.\-]/g, "")\<close>\<close>

definition scrub :: "string \<Rightarrow> string" where
  "scrub s = filter (\<lambda>c. is_digit c \<or> c = CHR '','' \<or> c = CHR ''.'' \<or> c = CHR ''-'') s"

definition strip_char :: "char \<Rightarrow> string \<Rightarrow> string" where
  "strip_char x s = filter (\<lambda>c. c \<noteq> x) s"

definition comma_to_dot :: "string \<Rightarrow> string" where
  "comma_to_dot s = map (\<lambda>c. if c = CHR '','' then CHR ''.'' else c) s"

definition normalizeNumber :: "string option \<Rightarrow> number option" where
  "normalizeNumber str =
     (case str of
        None \<Rightarrow> None
      | Some s \<Rightarrow>
          if s = [] then None
          else
            let cleaned = scrub s;
                dotCount = count_list cleaned (CHR ''.'');
                commaCount = count_list cleaned (CHR '','')
            in if dotCount > 1 \<and> commaCount = 0 then Some (js_Number (strip_char (CHR ''.'') cleaned))
               else if commaCount > 1 \<and> dotCount = 0 then Some (js_Number (strip_char (CHR '','') cleaned))
               else if commaCount = 1 \<and> dotCount = 0 then Some (js_Number (comma_to_dot cleaned))
               else if commaCount \<ge> 1 \<and> dotCount \<ge> 1 then Some (js_Number (strip_char (CHR '','') cleaned))
               else Some (js_Number cleaned))"

subsection \<open>pickNumberToken\<close>

definition is_numch :: "char \<Rightarrow> bool" where
  "is_numch c = (is_digit c \<or> c = CHR ''.'' \<or> c = CHR '','')"

text \<open>
  \<^verbatim>\<open>raw.match(/[0-9][0-9.,]*/g)\<close>: the successive matches, left to right. A match starts
  at the next digit and runs over every following digit, dot and comma.
\<close>

function numberTokens :: "string \<Rightarrow> string list" where
  "numberTokens [] = []"
| "numberTokens (c # cs) =
     (if is_digit c then (c # takeWhile is_numch cs) # numberTokens (dropWhile is_numch cs)
      else numberTokens cs)"
  by pat_completeness auto
termination
  by (relation "measure length") (auto simp: length_dropWhile_le less_Suc_eq_le)

definition minDigits :: "string \<Rightarrow> nat" where
  "minDigits unitKind =
     (if unitKind = ''currency'' then 6
      else if unitKind = ''volume'' then 2
      else if unitKind = ''percent'' then 1
      else if unitKind = ''count'' then 1 else 1)"

text \<open>\<^verbatim>\<open>token.replace(/[.,]/g, "").length\<close>\<close>

definition digitCount :: "string \<Rightarrow> nat" where
  "digitCount token = length (filter (\<lambda>c. c \<noteq> CHR ''.'' \<and> c \<noteq> CHR '','') token)"

text \<open>The \<^verbatim>\<open>for (const token of tokens)\<close> loop: the first token with enough digits.\<close>

fun firstWithDigits :: "nat \<Rightarrow> string list \<Rightarrow> string option" where
  "firstWithDigits n [] = None"
| "firstWithDigits n (t # ts) = (if digitCount t \<ge> n then Some t else firstWithDigits n ts)"

definition pickNumberToken :: "string option \<Rightarrow> string \<Rightarrow> string option" where
  "pickNumberToken raw unitKind =
     (let tokens = numberTokens (case raw of None \<Rightarrow> [] | Some r \<Rightarrow> r) in
      if tokens = [] then raw
      else (case firstWithDigits (minDigits unitKind) tokens of
              Some t \<Rightarrow> Some t
            | None \<Rightarrow> Some (hd tokens)))"

subsection \<open>normalizeByUnit\<close>

definition normalizeByUnit :: "number option \<Rightarrow> string \<Rightarrow> string \<Rightarrow> string \<Rightarrow> real option" where
  "normalizeByUnit v unitToken context unitKind =
     (case v of
        None \<Rightarrow> None
      | Some NaN \<Rightarrow> None
      | Some (Fin x) \<Rightarrow>
          let token = foldAscii unitToken; ctx = foldAscii context in
          if unitKind = ''percent'' then
            (if (str_includes ctx ''%'' \<or> str_includes token ''%'') \<or> \<bar>x\<bar> > 3 / 2 then Some (x / 100)
             else Some x)
          else if unitKind = ''currency'' then
            (if str_includes token ''billion'' \<or> str_includes token ''ty'' then Some x
             else if str_includes token ''million'' \<or> str_includes token ''trieu'' then Some (x / 1000)
             else if str_includes token ''usd'' then None
             else if str_includes ctx ''trieu'' \<or> str_includes ctx ''million'' then Some (x / 1000)
             else if str_includes ctx ''ty'' \<or> str_includes ctx ''billion'' then Some x
             else if \<bar>x\<bar> \<ge> 1000000 then Some (x / 1000000000)
             else if \<bar>x\<bar> \<ge> 1000 then Some (x / 1000)
             else Some x)
          else if unitKind = ''volume'' then
            (if str_includes token ''million'' \<or> str_includes token ''trieu'' then Some x
             else if str_includes token ''thousand'' \<or> str_includes token ''nghin'' then Some (x / 1000)
             else if \<bar>x\<bar> > 100 then Some (x / 1000)
             else Some x)
          else Some x)"

section \<open>Pattern extraction\<close>

subsection \<open>hasPeriodNearMatch\<close>

definition quarterToRoman :: "string \<Rightarrow> string" where
  "quarterToRoman q =
     (if q = ''1'' then ''i''
      else if q = ''2'' then ''ii''
      else if q = ''3'' then ''iii''
      else if q = ''4'' then ''iv'' else [])"

text \<open>\<^verbatim>\<open>s.slice(a, b)\<close> for indices \<open>0 \<le> a\<close> and \<open>0 \<le> b\<close>.\<close>

definition slice :: "nat \<Rightarrow> nat \<Rightarrow> string \<Rightarrow> string" where
  "slice a b s = take (b - a) (drop a s)"

text \<open>
  The two regular expressions of \<^verbatim>\<open>hasPeriodNearMatch\<close> are built from the period:
  \<^verbatim>\<open>(q\s*Q|quy\s*Q|quy\s*R)\<close> with flag \<^verbatim>\<open>i\<close>, where \<open>Q\<close> is the text after the fifth
  character of the period and \<open>R\<close> its Roman form, and the year alone. Every period that
  reaches the function has the form \<^verbatim>\<open>YYYYQn\<close>, so \<open>Q\<close>, \<open>R\<close> and the year hold no
  metacharacter and stand for themselves. \<open>prefix_ci lit s\<close>: the text \<open>s\<close> starts with
  \<open>lit\<close>, case ignored. \<open>ws_then lit s\<close>: \<^verbatim>\<open>\s*lit\<close> matches at the start of \<open>s\<close>.
  \<open>regex_test m s\<close>: the expression with matcher \<open>m\<close> matches somewhere in \<open>s\<close>.
\<close>

definition prefix_ci :: "string \<Rightarrow> string \<Rightarrow> bool" where
  "prefix_ci lit s = prefix (map toLowerChar lit) (map toLowerChar s)"

fun ws_then :: "string \<Rightarrow> string \<Rightarrow> bool" where
  "ws_then lit [] = (lit = [])"
| "ws_then lit (c # cs) = (prefix_ci lit (c # cs) \<or> (is_space c \<and> ws_then lit cs))"

definition marker_at :: "string \<Rightarrow> string \<Rightarrow> string \<Rightarrow> bool" where
  "marker_at word lit s = (prefix_ci word s \<and> ws_then lit (drop (length word) s))"

definition quarterRegex :: "string \<Rightarrow> string \<Rightarrow> string \<Rightarrow> bool" where
  "quarterRegex q roman s =
     (marker_at ''q'' q s \<or> marker_at ''quy'' q s \<or> marker_at ''quy'' roman s)"

fun regex_test :: "(string \<Rightarrow> bool) \<Rightarrow> string \<Rightarrow> bool" where
  "regex_test m [] = m []"
| "regex_test m (c # cs) = (m (c # cs) \<or> regex_test m cs)"

definition hasPeriodNearMatch :: "string \<Rightarrow> nat \<Rightarrow> string option \<Rightarrow> bool" where
  "hasPeriodNearMatch text index period =
     (case period of
        None \<Rightarrow> True
      | Some p \<Rightarrow>
          if p = [] then True
          else
            let year = slice 0 4 p;
                q = drop 5 p;
                roman = quarterToRoman q;
                window = slice (index - 180) (index + 260) text
            in regex_test (quarterRegex q roman) window \<and> str_includes window year)"

subsection \<open>extractValueFromText\<close>

text \<open>
  The value patterns come from the configuration and from \<^verbatim>\<open>KPI_PATTERNS\<close> as text, and
  the JavaScript engine compiles and runs them. The engine is a parameter of the model:
  \<open>rx_valid p\<close> says that \<^verbatim>\<open>new RegExp(p, flags)\<close> does not throw, and
  \<open>rx_exec p text i\<close> is the result of \<^verbatim>\<open>exec\<close> on \<open>text\<close> with \<^verbatim>\<open>lastIndex = i\<close>: the
  index of the match, the matched text and the first two groups, or \<^const>\<open>None\<close>.
\<close>

datatype error = Error string

datatype 'a outcome = Returns 'a | Throws error

record rmatch =
  m_index :: nat
  m_all :: string
  m_group1 :: "string option"
  m_group2 :: "string option"

record regex_engine =
  rx_valid :: "string \<Rightarrow> bool"
  rx_exec :: "string \<Rightarrow> string \<Rightarrow> nat \<Rightarrow> rmatch option"

text \<open>
  The body of the \<^verbatim>\<open>while\<close> loop of \<^verbatim>\<open>extractValueFromText\<close> for one match: the value
  it returns, or \<^const>\<open>None\<close> where the loop goes on (\<^verbatim>\<open>continue\<close>).
\<close>

definition acceptMatch ::
    "string \<Rightarrow> string \<Rightarrow> real option \<Rightarrow> real option \<Rightarrow> string option \<Rightarrow> bool \<Rightarrow> rmatch \<Rightarrow> real option" where
  "acceptMatch foldedText unitKind minValue maxValue period strictPeriod m =
     (let token = pickNumberToken (m_group1 m) unitKind;
          raw = normalizeNumber token;
          unitToken = (case m_group2 m of None \<Rightarrow> [] | Some u \<Rightarrow> u);
          normalized = normalizeByUnit raw unitToken (m_all m) unitKind
      in case normalized of
           None \<Rightarrow> None
         | Some v \<Rightarrow>
             if (case minValue of Some lo \<Rightarrow> v < lo | None \<Rightarrow> False) then None
             else if (case maxValue of Some hi \<Rightarrow> v > hi | None \<Rightarrow> False) then None
             else if strictPeriod \<and> \<not> hasPeriodNearMatch foldedText (m_index m) period then None
             else Some v)"

text \<open>
  The \<^verbatim>\<open>while ((match = regex.exec(foldedText)) !== null)\<close> loop of one global pattern.
  After a match \<^verbatim>\<open>lastIndex\<close> is the end of the match. The loop need not end (an
  expression that matches the empty text never advances): \<^const>\<open>None\<close> is a loop that
  runs forever, \<open>Some None\<close> a pattern without an accepted match.
\<close>

partial_function (option) scanMatches ::
    "(nat \<Rightarrow> rmatch option) \<Rightarrow> (rmatch \<Rightarrow> real option) \<Rightarrow> nat \<Rightarrow> real option option" where
  "scanMatches exec accept lastIndex =
     (case exec lastIndex of
        None \<Rightarrow> Some None
      | Some m \<Rightarrow>
          (case accept m of
             Some v \<Rightarrow> Some (Some v)
           | None \<Rightarrow> scanMatches exec accept (m_index m + length (m_all m))))"

fun tryPatterns ::
    "regex_engine \<Rightarrow> string \<Rightarrow> (rmatch \<Rightarrow> real option) \<Rightarrow> string list \<Rightarrow> real option outcome option" where
  "tryPatterns eng text accept [] = Some (Returns None)"
| "tryPatterns eng text accept (p # ps) =
     (if \<not> rx_valid eng p then Some (Throws (Error ''Invalid regular expression''))
      else (case scanMatches (rx_exec eng p text) accept 0 of
              None \<Rightarrow> None
            | Some (Some v) \<Rightarrow> Some (Returns (Some v))
            | Some None \<Rightarrow> tryPatterns eng text accept ps))"

definition extractValueFromText ::
    "regex_engine \<Rightarrow> string \<Rightarrow> string list \<Rightarrow> string \<Rightarrow> real option \<Rightarrow> real option \<Rightarrow>
       string option \<Rightarrow> bool \<Rightarrow> real option outcome option" where
  "extractValueFromText eng foldedText patterns unitKind minValue maxValue period strictPeriod =
     tryPatterns eng foldedText
       (acceptMatch foldedText unitKind minValue maxValue period strictPeriod) patterns"

section \<open>Documents and the document cache\<close>

text \<open>
  The network, the PDF text layer, the page renderer and the two OCR engines are outside
  the program. They are parameters of the model, collected in the record \<open>env\<close> below; a
  call that throws is the outcome \<^const>\<open>Throws\<close>. The answer of the network may differ
  from one request to the next, so \<open>net\<close> takes the number of requests made before.
  The state of a run is the \<^verbatim>\<open>DOCUMENT_CACHE\<close> and the log of the requests sent.
\<close>

record document =
  doc_text :: string
  doc_folded :: string
  doc_buffer :: string
  doc_isPdf :: bool
  doc_html :: string

record world =
  cache :: "string \<Rightarrow> document option"
  requests :: "string list"

record page =
  pageNum :: nat
  image :: string

record candidate =
  c_url :: string
  c_text :: string

record entry =
  e_period :: string
  e_url :: string
  e_pattern :: string

text \<open>
  \<open>crawl\<close> stands for the collection of the raw candidate pool at the start of
  \<^verbatim>\<open>autoFillSeries\<close> (sitemaps, listing pages and their expansion) and \<open>discoverEntries\<close>
  for the function of that name: both read the network and produce a list, and neither
  reads nor writes a series.
\<close>

record env =
  net :: "nat \<Rightarrow> string \<Rightarrow> string outcome"
  pdf_getText :: "string \<Rightarrow> string outcome"
  regex :: regex_engine
  tesseract_bin :: bool
  tesseract :: "string \<Rightarrow> string \<Rightarrow> int \<Rightarrow> string outcome"
  js_recognize :: "string \<Rightarrow> string \<Rightarrow> string outcome"
  render :: "string \<Rightarrow> nat \<Rightarrow> real \<Rightarrow> page list outcome"
  crawl :: "world \<Rightarrow> candidate list \<times> world"
  discoverEntries :: "world \<Rightarrow> entry list \<times> world"

definition toLowerCase :: "string \<Rightarrow> string" where
  "toLowerCase s = map toLowerChar s"

definition isPdf :: "string \<Rightarrow> bool" where
  "isPdf url = str_includes (toLowerCase url) ''.pdf''"

text \<open>\<open>after_ci lit s\<close>: what follows the first occurrence of \<open>lit\<close> in \<open>s\<close>, case ignored.\<close>

fun after_ci :: "string \<Rightarrow> string \<Rightarrow> string option" where
  "after_ci lit [] = (if lit = [] then Some [] else None)"
| "after_ci lit (c # cs) =
     (if prefix_ci lit (c # cs) then Some (drop (length lit) (c # cs)) else after_ci lit cs)"

text \<open>
  \<^verbatim>\<open>replace(/<tag[\s\S]*?<\/tag>/gi, " ")\<close>: a block runs from an opening \<^verbatim>\<open><tag\<close> to the
  first closing tag after it; \<open>cls\<close> is the text of the closing tag.
\<close>

function strip_block :: "string \<Rightarrow> string \<Rightarrow> string \<Rightarrow> string" where
  "strip_block tag cls [] = []"
| "strip_block tag cls (c # cs) =
     (if prefix_ci (CHR ''<'' # tag) (c # cs) then
        (case after_ci cls (drop (length tag) cs) of
           Some rest \<Rightarrow> CHR '' '' # strip_block tag cls rest
         | None \<Rightarrow> c # strip_block tag cls cs)
      else c # strip_block tag cls cs)"
  by pat_completeness auto
termination
proof (relation "measure (\<lambda>(tag, cls, s). length s)")
  have le: "after_ci lit s = Some r \<Longrightarrow> length r \<le> length s" for lit s r
    by (induction s) (auto split: if_splits)
  show "wf (measure (\<lambda>(tag, cls, s). length s))" by simp
  show "((tag, cls, rest), tag, cls, c # cs) \<in> measure (\<lambda>(tag, cls, s). length s)"
    if "after_ci cls (drop (length tag) cs) = Some rest" for tag cls c cs rest
  proof -
    have "length rest \<le> length (drop (length tag) cs)" using that by (rule le)
    then show ?thesis by simp
  qed
  show "((tag, cls, cs), tag, cls, c # cs) \<in> measure (\<lambda>(tag, cls, s). length s)"
    for tag cls c cs
    by simp
  show "((tag, cls, cs), tag, cls, c # cs) \<in> measure (\<lambda>(tag, cls, s). length s)"
    for tag cls c cs
    by simp
qed

text \<open>\<^verbatim>\<open>replace(/<[^>]+>/g, " ")\<close>\<close>

function strip_tags :: "string \<Rightarrow> string" where
  "strip_tags [] = []"
| "strip_tags (c # cs) =
     (if c = CHR ''<'' \<and> takeWhile (\<lambda>x. x \<noteq> CHR ''>'') cs \<noteq> []
          \<and> dropWhile (\<lambda>x. x \<noteq> CHR ''>'') cs \<noteq> []
      then CHR '' '' # strip_tags (tl (dropWhile (\<lambda>x. x \<noteq> CHR ''>'') cs))
      else c # strip_tags cs)"
  by pat_completeness auto
termination
  by (relation "measure length")
     (auto simp: less_Suc_eq_le intro: le_trans [OF diff_le_self length_dropWhile_le])

text \<open>\<^verbatim>\<open>replace(/\s+/g, " ")\<close>\<close>

function collapse_ws :: "string \<Rightarrow> string" where
  "collapse_ws [] = []"
| "collapse_ws (c # cs) =
     (if is_space c then CHR '' '' # collapse_ws (dropWhile is_space cs)
      else c # collapse_ws cs)"
  by pat_completeness auto
termination
  by (relation "measure length") (auto simp: length_dropWhile_le less_Suc_eq_le)

definition fetchBuffer :: "env \<Rightarrow> string \<Rightarrow> world \<Rightarrow> string outcome \<times> world" where
  "fetchBuffer e url w = (net e (length (requests w)) url, w\<lparr>requests := requests w @ [url]\<rparr>)"

definition mkDocument :: "string \<Rightarrow> string \<Rightarrow> bool \<Rightarrow> string \<Rightarrow> document" where
  "mkDocument txt buf pdf html =
     \<lparr>doc_text = txt, doc_folded = collapse_ws (foldAscii txt), doc_buffer = buf,
      doc_isPdf = pdf, doc_html = html\<rparr>"

definition fetchDocument :: "env \<Rightarrow> string \<Rightarrow> world \<Rightarrow> document outcome \<times> world" where
  "fetchDocument e url w =
     (case cache w url of
        Some d \<Rightarrow> (Returns d, w)
      | None \<Rightarrow>
          (case fetchBuffer e url w of
             (Throws err, w1) \<Rightarrow> (Throws err, w1)
           | (Returns buf, w1) \<Rightarrow>
               if isPdf url then
                 (case pdf_getText e buf of
                    Throws err \<Rightarrow> (Throws err, w1)
                  | Returns txt \<Rightarrow>
                      let payload = mkDocument txt buf True [] in
                      (Returns payload, w1\<lparr>cache := (cache w1)(url \<mapsto> payload)\<rparr>))
               else
                 let html = buf;
                     txt = strip_tags
                             (strip_block ''style'' ''</style>''
                               (strip_block ''script'' ''</script>'' html));
                     payload = mkDocument txt buf False html
                 in (Returns payload, w1\<lparr>cache := (cache w1)(url \<mapsto> payload)\<rparr>)))"

text \<open>A run of calls of \<^verbatim>\<open>fetchDocument\<close>, one after the other, errors caught by the caller.\<close>

fun fetchAll :: "env \<Rightarrow> string list \<Rightarrow> world \<Rightarrow> world" where
  "fetchAll e [] w = w"
| "fetchAll e (url # urls) w = fetchAll e urls (snd (fetchDocument e url w))"

text \<open>
  A request is complete when the download succeeded and, for a PDF, the text layer was
  read: the requests that end in a \<^verbatim>\<open>DOCUMENT_CACHE.set\<close>.
\<close>

definition completes :: "env \<Rightarrow> nat \<Rightarrow> string \<Rightarrow> bool" where
  "completes e n url =
     (case net e n url of
        Throws err \<Rightarrow> False
      | Returns buf \<Rightarrow>
          (if isPdf url then (case pdf_getText e buf of Throws err \<Rightarrow> False | Returns t \<Rightarrow> True)
           else True))"

definition completed :: "env \<Rightarrow> string list \<Rightarrow> string \<Rightarrow> nat list" where
  "completed e reqs url = filter (\<lambda>n. reqs ! n = url \<and> completes e n url) [0 ..< length reqs]"

section \<open>The OCR fallback\<close>

text \<open>The words of \<^verbatim>\<open>kw.trim().split(/\s+/)\<close>.\<close>

function ws_words :: "string \<Rightarrow> string list" where
  "ws_words [] = []"
| "ws_words (c # cs) =
     (if is_space c then ws_words cs
      else (c # takeWhile (\<lambda>x. \<not> is_space x) cs) # ws_words (dropWhile (\<lambda>x. \<not> is_space x) cs))"
  by pat_completeness auto
termination
  by (relation "measure length") (auto simp: length_dropWhile_le less_Suc_eq_le)

definition keywordWeight :: "string \<Rightarrow> nat" where
  "keywordWeight kw = max 1 (if ws_words kw = [] then 1 else length (ws_words kw))"

definition scoreOcrText :: "string \<Rightarrow> string list \<Rightarrow> int" where
  "scoreOcrText txt keywords =
     (let folded = foldAscii txt;
          digitScore = min 500 (length (filter is_digit folded));
          keywordScore = sum_list (map (\<lambda>kw. if str_includes folded kw then keywordWeight kw else 0) keywords)
      in int keywordScore * 1000 + int digitScore)"

text \<open>
  The loop over the rotation angles of one page, from the state \<^verbatim>\<open>(bestText, bestScore)\<close>.
  \<open>ocr angle\<close> is the output of the OCR binary on the page rotated by \<open>angle\<close>.
\<close>

fun rotateLoop ::
    "(int \<Rightarrow> string outcome) \<Rightarrow> string list \<Rightarrow> bool \<Rightarrow> int list \<Rightarrow> string \<times> int \<Rightarrow> string outcome" where
  "rotateLoop ocr keywords requireKeywords [] best = Returns (fst best)"
| "rotateLoop ocr keywords requireKeywords (angle # angles) best =
     (case ocr angle of
        Throws err \<Rightarrow> Throws err
      | Returns outText \<Rightarrow>
          let score = scoreOcrText outText keywords in
          if requireKeywords \<and> score < 1000 \<and> angle = 0
          then rotateLoop ocr keywords requireKeywords angles best
          else
            let best' = (if score > snd best then (outText, score) else best) in
            if angle = 0 \<and> score \<ge> 1000 then Returns (fst best')
            else rotateLoop ocr keywords requireKeywords angles best')"

record ocrOpts =
  o_engine :: string
  o_maxPages :: nat
  o_scale :: real
  o_langs :: string
  o_rotateAngles :: "int list"
  o_ocrKeywords :: "string list"
  o_requireKeywords :: bool

definition rotateAngles :: "ocrOpts \<Rightarrow> int list" where
  "rotateAngles opts =
     (let rotateAnglesRaw = (if o_rotateAngles opts \<noteq> [] then o_rotateAngles opts else [0])
      in if 0 \<in> set rotateAnglesRaw then rotateAnglesRaw else 0 # rotateAnglesRaw)"

definition requireKeywords :: "ocrOpts \<Rightarrow> bool" where
  "requireKeywords opts = (o_requireKeywords opts \<and> o_ocrKeywords opts \<noteq> [])"

text \<open>The text of one page in \<^verbatim>\<open>ocrWithCli\<close>: the \<^verbatim>\<open>bestText\<close> after the rotation loop.\<close>

definition cliPageText :: "env \<Rightarrow> ocrOpts \<Rightarrow> page \<Rightarrow> string outcome" where
  "cliPageText e opts p =
     rotateLoop (tesseract e (if o_langs opts = [] then ''eng'' else o_langs opts) (image p))
       (o_ocrKeywords opts) (requireKeywords opts) (rotateAngles opts) ([], - 1)"

fun cliPages :: "env \<Rightarrow> ocrOpts \<Rightarrow> page list \<Rightarrow> string \<Rightarrow> string outcome" where
  "cliPages e opts [] txt = Returns txt"
| "cliPages e opts (p # ps) txt =
     (case cliPageText e opts p of
        Throws err \<Rightarrow> Throws err
      | Returns bestText \<Rightarrow> cliPages e opts ps (txt @ CHR 0x0A # bestText))"

definition ocrWithCli :: "env \<Rightarrow> page list \<Rightarrow> ocrOpts \<Rightarrow> string option outcome" where
  "ocrWithCli e pages opts =
     (if \<not> tesseract_bin e then Returns None
      else (case cliPages e opts pages [] of
              Throws err \<Rightarrow> Throws err
            | Returns txt \<Rightarrow> Returns (Some txt)))"

fun jsPages :: "env \<Rightarrow> string \<Rightarrow> page list \<Rightarrow> string \<Rightarrow> string outcome" where
  "jsPages e langs [] txt = Returns txt"
| "jsPages e langs (p # ps) txt =
     (case js_recognize e langs (image p) of
        Throws err \<Rightarrow> Throws err
      | Returns t \<Rightarrow> jsPages e langs ps (txt @ CHR 0x0A # t))"

definition ocrWithJs :: "env \<Rightarrow> page list \<Rightarrow> ocrOpts \<Rightarrow> string outcome" where
  "ocrWithJs e pages opts =
     jsPages e (if o_langs opts = [] then ''eng+vie'' else o_langs opts) pages []"

definition cliOrFail :: "env \<Rightarrow> page list \<Rightarrow> ocrOpts \<Rightarrow> string outcome" where
  "cliOrFail e pages opts =
     (case ocrWithCli e pages opts of
        Throws err \<Rightarrow> Throws err
      | Returns None \<Rightarrow> Throws (Error ''Tesseract CLI not available.'')
      | Returns (Some txt) \<Rightarrow> Returns txt)"

definition ocrPdfBuffer :: "env \<Rightarrow> string \<Rightarrow> ocrOpts \<Rightarrow> string outcome" where
  "ocrPdfBuffer e buffer opts =
     (let engine = (if o_engine opts = [] then ''auto'' else o_engine opts);
          maxPages = (if o_maxPages opts = 0 then 2 else o_maxPages opts);
          scale = (if o_scale opts = 0 then 16 / 10 else o_scale opts)
      in case render e buffer maxPages scale of
           Throws err \<Rightarrow> Throws err
         | Returns pages \<Rightarrow>
             if pages = [] then Returns []
             else if engine = ''js'' then ocrWithJs e pages opts
             else if engine = ''cli'' then
               (if \<not> tesseract_bin e then ocrWithJs e pages opts else cliOrFail e pages opts)
             else if tesseract_bin e then cliOrFail e pages opts
             else ocrWithJs e pages opts)"

section \<open>Periods inferred from text\<close>

definition PERIODS_Q :: "string list" where
  "PERIODS_Q =
     [''2021Q1'', ''2021Q2'', ''2021Q3'', ''2021Q4'',
      ''2022Q1'', ''2022Q2'', ''2022Q3'', ''2022Q4'',
      ''2023Q1'', ''2023Q2'', ''2023Q3'', ''2023Q4'',
      ''2024Q1'', ''2024Q2'', ''2024Q3'', ''2024Q4'',
      ''2025Q1'', ''2025Q2'', ''2025Q3'', ''2025Q4'']"

text \<open>
  The regular expressions written in the source are modelled by backtracking matchers. A
  position is the character before it together with the text after it; a matcher returns
  every way to match at a position, the one a backtracking engine tries first in front,
  with what it captured and the position after the match.
\<close>

type_synonym pos = "char option \<times> string"

definition advance :: "nat \<Rightarrow> pos \<Rightarrow> pos" where
  "advance k ps = (if k = 0 then ps else (Some (snd ps ! (k - 1)), drop k (snd ps)))"

definition rx_return :: "'a \<Rightarrow> pos \<Rightarrow> ('a \<times> pos) list" where
  "rx_return x ps = [(x, ps)]"

definition rx_bind ::
    "(pos \<Rightarrow> ('a \<times> pos) list) \<Rightarrow> ('a \<Rightarrow> pos \<Rightarrow> ('b \<times> pos) list) \<Rightarrow> pos \<Rightarrow> ('b \<times> pos) list" where
  "rx_bind r k ps = concat (map (\<lambda>(x, ps'). k x ps') (r ps))"

text \<open>A literal; \<open>ci\<close> is the flag \<^verbatim>\<open>i\<close>.\<close>

definition rx_lit :: "bool \<Rightarrow> string \<Rightarrow> pos \<Rightarrow> (string \<times> pos) list" where
  "rx_lit ci lit ps =
     (if (if ci then prefix_ci lit (snd ps) else prefix lit (snd ps))
      then [(take (length lit) (snd ps), advance (length lit) ps)] else [])"

text \<open>A character class repeated \<^verbatim>\<open>{lo,hi}\<close>, greedy; no upper bound is \<^const>\<open>None\<close>.\<close>

definition rx_rep :: "(char \<Rightarrow> bool) \<Rightarrow> nat \<Rightarrow> nat option \<Rightarrow> pos \<Rightarrow> (string \<times> pos) list" where
  "rx_rep P lo hi ps =
     (let n = length (takeWhile P (snd ps));
          m = (case hi of None \<Rightarrow> n | Some h \<Rightarrow> min h n)
      in map (\<lambda>k. (take k (snd ps), advance k ps)) (filter (\<lambda>k. lo \<le> k) (rev [0 ..< Suc m])))"

definition rx_opt :: "(pos \<Rightarrow> (string \<times> pos) list) \<Rightarrow> pos \<Rightarrow> (string \<times> pos) list" where
  "rx_opt r ps = r ps @ [([], ps)]"

definition rx_alt :: "(pos \<Rightarrow> ('a \<times> pos) list) list \<Rightarrow> pos \<Rightarrow> ('a \<times> pos) list" where
  "rx_alt rs ps = concat (map (\<lambda>r. r ps) rs)"

definition is_word :: "char \<Rightarrow> bool" where
  "is_word c = (c \<in> set ''abcdefghijklmnopqrstuvwxyzABCDEFGHIJKLMNOPQRSTUVWXYZ0123456789_'')"

text \<open>\<^verbatim>\<open>\b\<close>\<close>

definition rx_wordb :: "pos \<Rightarrow> (string \<times> pos) list" where
  "rx_wordb ps =
     (let wordLeft = (case fst ps of None \<Rightarrow> False | Some c \<Rightarrow> is_word c);
          wordRight = (case snd ps of [] \<Rightarrow> False | c # cs \<Rightarrow> is_word c)
      in if wordLeft \<noteq> wordRight then [([], ps)] else [])"

text \<open>The leftmost match: \<^verbatim>\<open>text.match(regex)\<close> without flag \<^verbatim>\<open>g\<close>.\<close>

fun rx_search :: "(pos \<Rightarrow> ('a \<times> pos) list) \<Rightarrow> char option \<Rightarrow> string \<Rightarrow> 'a option" where
  "rx_search r p [] = (case r (p, []) of [] \<Rightarrow> None | x # xs \<Rightarrow> Some (fst x))"
| "rx_search r p (c # cs) =
     (case r (p, c # cs) of [] \<Rightarrow> rx_search r (Some c) cs | x # xs \<Rightarrow> Some (fst x))"

text \<open>
  The successive matches of a global expression whose matches are never empty; \<open>skip\<close>
  counts the characters still covered by the last match.
\<close>

fun rx_matches :: "(pos \<Rightarrow> ('a \<times> pos) list) \<Rightarrow> nat \<Rightarrow> char option \<Rightarrow> string \<Rightarrow> 'a list" where
  "rx_matches r skip p [] = []"
| "rx_matches r skip p (c # cs) =
     (if skip > 0 then rx_matches r (skip - 1) (Some c) cs
      else (case r (p, c # cs) of
              [] \<Rightarrow> rx_matches r 0 (Some c) cs
            | x # xs \<Rightarrow> fst x # rx_matches r (length cs - length (snd (snd x))) (Some c) cs))"

definition is_sep :: "char \<Rightarrow> bool" where
  "is_sep c = (c = CHR ''-'' \<or> c = CHR ''_'' \<or> is_space c)"

text \<open>\<^verbatim>\<open>(20\d{2})\<close>\<close>

definition rx_year :: "pos \<Rightarrow> (string \<times> pos) list" where
  "rx_year = rx_bind (rx_lit False ''20'') (\<lambda>a. rx_bind (rx_rep is_digit 2 (Some 2)) (\<lambda>b. rx_return (a @ b)))"

text \<open>\<^verbatim>\<open>(1|2|3|4|i{1,3}|iv)\<close>\<close>

definition rx_quarter :: "bool \<Rightarrow> pos \<Rightarrow> (string \<times> pos) list" where
  "rx_quarter ci =
     rx_alt [rx_lit ci ''1'', rx_lit ci ''2'', rx_lit ci ''3'', rx_lit ci ''4'',
             rx_rep (\<lambda>c. (if ci then toLowerChar c else c) = CHR ''i'') 1 (Some 3),
             rx_lit ci ''iv'']"

text \<open>\<^verbatim>\<open>(?:nam[-_\s]*)?\<close>\<close>

definition rx_nam :: "pos \<Rightarrow> (string \<times> pos) list" where
  "rx_nam = rx_opt (rx_bind (rx_lit False ''nam'') (\<lambda>a. rx_bind (rx_rep is_sep 0 None) (\<lambda>b. rx_return (a @ b))))"

definition romanToQuarter :: "string \<Rightarrow> string option" where
  "romanToQuarter token =
     (let t = toLowerCase token in
      if t = ''i'' then Some ''1''
      else if t = ''ii'' then Some ''2''
      else if t = ''iii'' then Some ''3''
      else if t = ''iv'' then Some ''4''
      else if t \<in> set [''1'', ''2'', ''3'', ''4''] then Some t
      else None)"

text \<open>
  The four expressions of \<^verbatim>\<open>inferPeriodFromString\<close>; each returns the year and the
  quarter token it captured.
\<close>

definition str_yq :: "pos \<Rightarrow> ((string \<times> string) \<times> pos) list" where
  "str_yq =
     rx_bind rx_wordb (\<lambda>_. rx_bind rx_year (\<lambda>y. rx_bind (rx_rep is_sep 0 None) (\<lambda>_.
     rx_bind (rx_lit False ''q'') (\<lambda>_. rx_bind (rx_rep (\<lambda>c. c \<in> set ''1234'') 1 (Some 1)) (\<lambda>q.
     rx_bind rx_wordb (\<lambda>_. rx_return (y, q)))))))"

definition str_qy :: "pos \<Rightarrow> ((string \<times> string) \<times> pos) list" where
  "str_qy =
     rx_bind rx_wordb (\<lambda>_. rx_bind (rx_lit False ''q'') (\<lambda>_.
     rx_bind (rx_rep (\<lambda>c. c \<in> set ''1234'') 1 (Some 1)) (\<lambda>q. rx_bind (rx_rep is_sep 0 None) (\<lambda>_.
     rx_bind rx_year (\<lambda>y. rx_bind rx_wordb (\<lambda>_. rx_return (y, q)))))))"

definition str_y_quy :: "pos \<Rightarrow> ((string \<times> string) \<times> pos) list" where
  "str_y_quy =
     rx_bind rx_wordb (\<lambda>_. rx_bind rx_year (\<lambda>y. rx_bind (rx_rep is_sep 0 None) (\<lambda>_.
     rx_bind rx_nam (\<lambda>_. rx_bind (rx_lit False ''quy'') (\<lambda>_. rx_bind (rx_rep is_sep 0 None) (\<lambda>_.
     rx_bind (rx_quarter False) (\<lambda>q. rx_bind rx_wordb (\<lambda>_. rx_return (y, q)))))))))"

definition str_quy_y :: "pos \<Rightarrow> ((string \<times> string) \<times> pos) list" where
  "str_quy_y =
     rx_bind rx_wordb (\<lambda>_. rx_bind (rx_lit False ''quy'') (\<lambda>_. rx_bind (rx_rep is_sep 0 None) (\<lambda>_.
     rx_bind (rx_quarter False) (\<lambda>q. rx_bind (rx_rep is_sep 0 None) (\<lambda>_. rx_bind rx_nam (\<lambda>_.
     rx_bind rx_year (\<lambda>y. rx_bind rx_wordb (\<lambda>_. rx_return (y, q)))))))))"

definition inferPeriodFromString :: "string \<Rightarrow> string option" where
  "inferPeriodFromString input =
     (let txt = foldAscii input in
      case rx_search str_yq None txt of
        Some (y, q) \<Rightarrow> Some (y @ ''Q'' @ q)
      | None \<Rightarrow>
          (case rx_search str_qy None txt of
             Some (y, q) \<Rightarrow> Some (y @ ''Q'' @ q)
           | None \<Rightarrow>
               (case rx_search str_y_quy None txt of
                  Some (y, t) \<Rightarrow>
                    (case romanToQuarter t of Some q \<Rightarrow> Some (y @ ''Q'' @ q) | None \<Rightarrow> None)
                | None \<Rightarrow>
                    (case rx_search str_quy_y None txt of
                       Some (y, t) \<Rightarrow>
                         (case romanToQuarter t of Some q \<Rightarrow> Some (y @ ''Q'' @ q) | None \<Rightarrow> None)
                     | None \<Rightarrow> None))))"

text \<open>The four scans of \<^verbatim>\<open>inferPeriodFromText\<close>, all with the flags \<^verbatim>\<open>gi\<close>.\<close>

definition rx_gap :: "pos \<Rightarrow> (string \<times> pos) list" where
  "rx_gap =
     rx_bind (rx_rep is_space 0 None) (\<lambda>_.
     rx_bind (rx_rep (\<lambda>c. c \<in> set ''-_/'') 0 (Some 1)) (\<lambda>_. rx_rep is_space 0 None))"

definition rx_nam_gap :: "pos \<Rightarrow> (string \<times> pos) list" where
  "rx_nam_gap =
     rx_bind (rx_rep is_space 0 None) (\<lambda>_.
     rx_bind (rx_opt (rx_lit True ''nam'')) (\<lambda>_. rx_rep is_space 0 None))"

definition txt_yq :: "pos \<Rightarrow> ((string \<times> string) \<times> pos) list" where
  "txt_yq =
     rx_bind rx_wordb (\<lambda>_. rx_bind rx_year (\<lambda>y. rx_bind rx_gap (\<lambda>_.
     rx_bind (rx_lit True ''q'') (\<lambda>_. rx_bind (rx_rep (\<lambda>c. c \<in> set ''1234'') 1 (Some 1)) (\<lambda>q.
     rx_bind rx_wordb (\<lambda>_. rx_return (y, q)))))))"

definition txt_qy :: "pos \<Rightarrow> ((string \<times> string) \<times> pos) list" where
  "txt_qy =
     rx_bind rx_wordb (\<lambda>_. rx_bind (rx_lit True ''q'') (\<lambda>_.
     rx_bind (rx_rep (\<lambda>c. c \<in> set ''1234'') 1 (Some 1)) (\<lambda>q. rx_bind rx_gap (\<lambda>_.
     rx_bind rx_year (\<lambda>y. rx_bind rx_wordb (\<lambda>_. rx_return (y, q)))))))"

definition txt_y_quy :: "pos \<Rightarrow> ((string \<times> string) \<times> pos) list" where
  "txt_y_quy =
     rx_bind rx_wordb (\<lambda>_. rx_bind rx_year (\<lambda>y. rx_bind rx_nam_gap (\<lambda>_.
     rx_bind (rx_lit True ''quy'') (\<lambda>_. rx_bind (rx_rep is_space 0 None) (\<lambda>_.
     rx_bind (rx_quarter True) (\<lambda>q. rx_bind rx_wordb (\<lambda>_. rx_return (y, q))))))))"

definition txt_quy_y :: "pos \<Rightarrow> ((string \<times> string) \<times> pos) list" where
  "txt_quy_y =
     rx_bind rx_wordb (\<lambda>_. rx_bind (rx_lit True ''quy'') (\<lambda>_. rx_bind (rx_rep is_space 0 None) (\<lambda>_.
     rx_bind (rx_quarter True) (\<lambda>q. rx_bind rx_nam_gap (\<lambda>_.
     rx_bind rx_year (\<lambda>y. rx_bind rx_wordb (\<lambda>_. rx_return (y, q))))))))"

definition scanPeriods :: "(pos \<Rightarrow> ((string \<times> string) \<times> pos) list) \<Rightarrow> string \<Rightarrow> string list" where
  "scanPeriods scan foldedText =
     List.map_filter
       (\<lambda>(y, t). case romanToQuarter t of
                   None \<Rightarrow> None
                 | Some q \<Rightarrow> if y @ ''Q'' @ q \<in> set PERIODS_Q then Some (y @ ''Q'' @ q) else None)
       (rx_matches scan 0 None foldedText)"

definition inferPeriodFromText :: "string \<Rightarrow> string option" where
  "inferPeriodFromText foldedText =
     (case concat (map (\<lambda>scan. scanPeriods scan foldedText) [txt_yq, txt_qy, txt_y_quy, txt_quy_y]) of
        [] \<Rightarrow> None
      | p # ps \<Rightarrow> Some p)"

section \<open>Candidate ranking\<close>

definition hasYearToken :: "string \<Rightarrow> bool" where
  "hasYearToken s = list_ex (str_includes s) [''2021'', ''2022'', ''2023'', ''2024'', ''2025'']"

definition keywordHits :: "string \<Rightarrow> string list \<Rightarrow> nat" where
  "keywordHits s ks = length (filter (str_includes s) ks)"

definition scoreUrl :: "string \<Rightarrow> string \<Rightarrow> nat" where
  "scoreUrl url kpiKey =
     (let lower = toLowerCase url;
          baseKeywords = [''bao-cao'', ''bctc'', ''financial'', ''report'', ''kqkd'',
                          ''ket-qua-kinh-doanh'', ''quan-he-co-dong'', ''investor'', ''ir'',
                          ''quarter'', ''quy''];
          kpiKeywords =
            (if kpiKey = ''stores'' then [''cua-hang'', ''store'']
             else if kpiKey = ''rev'' then [''doanh-thu'', ''revenue'']
             else if kpiKey = ''steel_volume'' then [''san-luong'', ''thep'', ''steel'']
             else if kpiKey = ''credit_yoy'' then [''tin-dung'', ''credit'']
             else [])
      in (if str_includes lower ''.pdf'' then 4 else 0)
         + (if hasYearToken lower then 2 else 0)
         + 2 * keywordHits lower baseKeywords
         + 2 * keywordHits lower kpiKeywords
         + (if str_includes lower ''q1'' \<or> str_includes lower ''q2'' \<or> str_includes lower ''q3''
               \<or> str_includes lower ''q4'' then 2 else 0))"

text \<open>\<^verbatim>\<open>/\bq[1-4]\b/\<close>\<close>

definition rx_qn :: "pos \<Rightarrow> (string \<times> pos) list" where
  "rx_qn =
     rx_bind rx_wordb (\<lambda>_. rx_bind (rx_lit False ''q'') (\<lambda>_.
     rx_bind (rx_rep (\<lambda>c. c \<in> set ''1234'') 1 (Some 1)) (\<lambda>q. rx_bind rx_wordb (\<lambda>_. rx_return q))))"

definition scoreCandidate :: "candidate \<Rightarrow> string \<Rightarrow> nat" where
  "scoreCandidate item kpiKey =
     (let score = scoreUrl (c_url item) kpiKey;
          txt = foldAscii (c_text item);
          baseKeywords = [''bao cao'', ''bctc'', ''financial'', ''report'', ''kqkd'',
                          ''ket qua kinh doanh'', ''quan he co dong'', ''investor'', ''ir'',
                          ''quarter'', ''quy''];
          kpiKeywords =
            (if kpiKey = ''stores'' then [''cua hang'', ''store'']
             else if kpiKey = ''rev'' then [''doanh thu'', ''revenue'', ''thu nhap'']
             else if kpiKey = ''steel_volume'' then [''san luong'', ''thep'', ''steel'']
             else if kpiKey = ''credit_yoy'' then [''tin dung'', ''credit'', ''loan'']
             else [])
      in if txt = [] then score
         else score
              + (if hasYearToken txt then 2 else 0)
              + (if rx_search rx_qn None txt \<noteq> None \<or> str_includes txt ''quy'' then 2 else 0)
              + 2 * keywordHits txt baseKeywords
              + 2 * keywordHits txt kpiKeywords)"

fun dedupeLoop :: "string list \<Rightarrow> candidate list \<Rightarrow> candidate list" where
  "dedupeLoop seen [] = []"
| "dedupeLoop seen (item # items) =
     (if c_url item = [] then dedupeLoop seen items
      else if c_url item \<in> set seen then dedupeLoop seen items
      else item # dedupeLoop (c_url item # seen) items)"

definition dedupeEntries :: "candidate list \<Rightarrow> candidate list" where
  "dedupeEntries items = dedupeLoop [] items"

record kpiMeta =
  km_primary :: "string list"
  km_fallback :: "string list"
  km_rowPatterns :: "string list"
  km_unitKind :: string
  km_minValue :: "real option"
  km_maxValue :: "real option"
  km_urlKeywords :: "string list"
  km_requiresPdf :: bool
  km_ocrKeywords :: "string list"

text \<open>\<^verbatim>\<open>if (filtered.length) candidates = filtered\<close>\<close>

definition keepIfAny :: "('a \<Rightarrow> bool) \<Rightarrow> 'a list \<Rightarrow> 'a list" where
  "keepIfAny P candidates = (if filter P candidates \<noteq> [] then filter P candidates else candidates)"

definition hasKeyword :: "string list \<Rightarrow> candidate \<Rightarrow> bool" where
  "hasKeyword keywordList item =
     list_ex (\<lambda>k. str_includes (foldAscii (c_url item)) k \<or> str_includes (foldAscii (c_text item)) k)
       keywordList"

definition hasPeriod :: "candidate \<Rightarrow> bool" where
  "hasPeriod item =
     (inferPeriodFromString (c_url item) \<noteq> None \<or> inferPeriodFromString (c_text item) \<noteq> None)"

text \<open>\<^verbatim>\<open>autoCfg.maxDocs || 80\<close>\<close>

definition effectiveMaxDocs :: "nat \<Rightarrow> nat" where
  "effectiveMaxDocs maxDocs = (if maxDocs = 0 then 80 else maxDocs)"

text \<open>
  Lines 938 to 961 of \<^verbatim>\<open>autoFillSeries\<close>: from the raw pool to the list of candidates.
  \<^verbatim>\<open>Array.prototype.sort\<close> is stable, as \<^const>\<open>sort_key\<close> is.
\<close>

definition filterCandidates :: "kpiMeta \<Rightarrow> candidate list \<Rightarrow> candidate list" where
  "filterCandidates meta pool =
     (let keywordList = map foldAscii (km_urlKeywords meta);
          c1 = (if keywordList \<noteq> [] then keepIfAny (hasKeyword keywordList) pool else pool);
          c2 = (if km_requiresPdf meta
                then keepIfAny (\<lambda>item. str_includes (toLowerCase (c_url item)) ''.pdf'') c1 else c1)
      in keepIfAny hasPeriod c2)"

definition rankCandidates :: "kpiMeta \<Rightarrow> string \<Rightarrow> nat \<Rightarrow> candidate list \<Rightarrow> candidate list" where
  "rankCandidates meta kpiKey maxDocs pool =
     take (effectiveMaxDocs maxDocs)
       (sort_key (\<lambda>item. - int (scoreCandidate item kpiKey))
          (filter (\<lambda>item. scoreCandidate item kpiKey \<ge> 3)
             (dedupeEntries (filterCandidates meta pool))))"

section \<open>Series and hydration\<close>

record point =
  p_period :: string
  p_value :: "real option"

definition blankSeries :: "point list" where
  "blankSeries = map (\<lambda>p. \<lparr>p_period = p, p_value = None\<rparr>) PERIODS_Q"

text \<open>
  \<^verbatim>\<open>const target = kpi.series.find((x) => x.period === period); if (target) target.value = v\<close>
\<close>

fun setValue :: "string \<Rightarrow> real option \<Rightarrow> point list \<Rightarrow> point list" where
  "setValue p v [] = []"
| "setValue p v (x # xs) = (if p_period x = p then x\<lparr>p_value := v\<rparr> # xs else x # setValue p v xs)"

record autoCfg =
  ac_enabled :: bool
  ac_maxDocs :: nat
  ac_ocr :: bool
  ac_ocrEngine :: string
  ac_ocrMaxDocs :: "int option"
  ac_ocrMaxPages :: nat
  ac_ocrScale :: real
  ac_ocrLangs :: string
  ac_ocrRotate :: bool
  ac_ocrRequireKeywords :: bool

record kpi =
  k_key :: string
  k_isRate :: bool
  k_series :: "point list"
  k_cfg :: "entry list"
  k_hasDiscover :: bool
  k_auto :: autoCfg

subsection \<open>Explicit entries\<close>

text \<open>
  One turn of the loop over \<^verbatim>\<open>kpi._cfg\<close> in \<^verbatim>\<open>hydrateSeries\<close>. An error thrown inside the
  \<^verbatim>\<open>try\<close> block is caught and the entry is left; \<^const>\<open>None\<close> is a turn that never ends.
\<close>

definition explicitEntry ::
    "env \<Rightarrow> string \<Rightarrow> real option \<Rightarrow> real option \<Rightarrow> entry \<Rightarrow> world \<times> point list \<Rightarrow>
       (world \<times> point list) option" where
  "explicitEntry e unitKind minValue maxValue ent st =
     (if e_period ent \<notin> set PERIODS_Q then Some st
      else if e_url ent = [] \<or> e_pattern ent = [] then Some st
      else
        (case fetchDocument e (e_url ent) (fst st) of
           (Throws err, w1) \<Rightarrow> Some (w1, snd st)
         | (Returns doc, w1) \<Rightarrow>
             (case extractValueFromText (regex e) (doc_folded doc) [e_pattern ent] unitKind
                     minValue maxValue None True of
                None \<Rightarrow> None
              | Some (Throws err) \<Rightarrow> Some (w1, snd st)
              | Some (Returns v) \<Rightarrow> Some (w1, setValue (e_period ent) v (snd st)))))"

fun explicitLoop ::
    "env \<Rightarrow> string \<Rightarrow> real option \<Rightarrow> real option \<Rightarrow> entry list \<Rightarrow> world \<times> point list \<Rightarrow>
       (world \<times> point list) option" where
  "explicitLoop e unitKind minValue maxValue [] st = Some st"
| "explicitLoop e unitKind minValue maxValue (ent # ents) st =
     (case explicitEntry e unitKind minValue maxValue ent st of
        None \<Rightarrow> None
      | Some st' \<Rightarrow> explicitLoop e unitKind minValue maxValue ents st')"

subsection \<open>Line-anchored extraction\<close>

function split_on :: "char \<Rightarrow> string \<Rightarrow> string list" where
  "split_on c s =
     (case dropWhile (\<lambda>x. x \<noteq> c) s of
        [] \<Rightarrow> [takeWhile (\<lambda>x. x \<noteq> c) s]
      | d # rest \<Rightarrow> takeWhile (\<lambda>x. x \<noteq> c) s # split_on c rest)"
  by pat_completeness auto
termination
proof (relation "measure (\<lambda>(c, s). length s)")
  show "wf (measure (\<lambda>(c, s). length s))" by simp
  show "((c, rest), c, s) \<in> measure (\<lambda>(c, s). length s)"
    if "dropWhile (\<lambda>x. x \<noteq> c) s = d # rest" for c s d rest
  proof -
    have "length (dropWhile (\<lambda>x. x \<noteq> c) s) \<le> length s" by (rule length_dropWhile_le)
    then show ?thesis using that by simp
  qed
qed

definition trim :: "string \<Rightarrow> string" where
  "trim s = rev (dropWhile is_space (rev (dropWhile is_space s)))"

definition splitTextLines :: "string \<Rightarrow> string list" where
  "splitTextLines txt = filter (\<lambda>line. line \<noteq> []) (map trim (split_on (CHR 0x0A) txt))"

text \<open>The loop over the tokens after a row label.\<close>

fun firstPlausible :: "string \<Rightarrow> string \<Rightarrow> real option \<Rightarrow> real option \<Rightarrow> string list \<Rightarrow> real option" where
  "firstPlausible after unitKind minValue maxValue [] = None"
| "firstPlausible after unitKind minValue maxValue (token # tokens) =
     (case normalizeByUnit (normalizeNumber (Some token)) [] after unitKind of
        None \<Rightarrow> firstPlausible after unitKind minValue maxValue tokens
      | Some v \<Rightarrow>
          if (case minValue of Some lo \<Rightarrow> v < lo | None \<Rightarrow> False)
          then firstPlausible after unitKind minValue maxValue tokens
          else if (case maxValue of Some hi \<Rightarrow> v > hi | None \<Rightarrow> False)
          then firstPlausible after unitKind minValue maxValue tokens
          else Some v)"

fun rowLoop ::
    "regex_engine \<Rightarrow> string \<Rightarrow> string \<Rightarrow> real option \<Rightarrow> real option \<Rightarrow> string list \<Rightarrow> real option" where
  "rowLoop eng folded unitKind minValue maxValue [] = None"
| "rowLoop eng folded unitKind minValue maxValue (p # ps) =
     (case rx_exec eng p folded 0 of
        None \<Rightarrow> rowLoop eng folded unitKind minValue maxValue ps
      | Some m \<Rightarrow>
          let after = drop (m_index m + length (m_all m)) folded in
          (case firstPlausible after unitKind minValue maxValue (numberTokens after) of
             Some v \<Rightarrow> Some v
           | None \<Rightarrow> rowLoop eng folded unitKind minValue maxValue ps))"

fun lineLoop ::
    "regex_engine \<Rightarrow> string list \<Rightarrow> string \<Rightarrow> real option \<Rightarrow> real option \<Rightarrow> string list \<Rightarrow> real option" where
  "lineLoop eng rowPatterns unitKind minValue maxValue [] = None"
| "lineLoop eng rowPatterns unitKind minValue maxValue (line # lines) =
     (case rowLoop eng (collapse_ws (foldAscii line)) unitKind minValue maxValue rowPatterns of
        Some v \<Rightarrow> Some v
      | None \<Rightarrow> lineLoop eng rowPatterns unitKind minValue maxValue lines)"

definition extractValueFromLines ::
    "regex_engine \<Rightarrow> string list \<Rightarrow> string list \<Rightarrow> string \<Rightarrow> real option \<Rightarrow> real option \<Rightarrow>
       real option outcome" where
  "extractValueFromLines eng lines rowPatterns unitKind minValue maxValue =
     (if lines = [] \<or> rowPatterns = [] then Returns None
      else if \<not> list_all (rx_valid eng) rowPatterns then Throws (Error ''Invalid regular expression'')
      else Returns (lineLoop eng rowPatterns unitKind minValue maxValue lines))"

subsection \<open>Automatic search\<close>

text \<open>
  The state of the OCR inside one turn of the candidate loop: \<^verbatim>\<open>ocrText\<close>, \<^verbatim>\<open>ocrFolded\<close>
  and the budget \<^verbatim>\<open>ocrRemaining\<close>.
\<close>

type_synonym ocrState = "string option \<times> string option \<times> int"

definition autoOcrOpts :: "kpiMeta \<Rightarrow> autoCfg \<Rightarrow> ocrOpts" where
  "autoOcrOpts meta cfg =
     \<lparr>o_engine = (if ac_ocrEngine cfg = [] then ''auto'' else ac_ocrEngine cfg),
      o_maxPages = (if ac_ocrMaxPages cfg = 0 then 2 else ac_ocrMaxPages cfg),
      o_scale = (if ac_ocrScale cfg = 0 then 16 / 10 else ac_ocrScale cfg),
      o_langs = (if ac_ocrLangs cfg = [] then ''eng+vie'' else ac_ocrLangs cfg),
      o_rotateAngles = (if ac_ocrRotate cfg then [0, 90, 180, 270] else [0]),
      o_ocrKeywords = km_ocrKeywords meta,
      o_requireKeywords = ac_ocrRequireKeywords cfg\<rparr>"

definition ensureOcr :: "env \<Rightarrow> kpiMeta \<Rightarrow> autoCfg \<Rightarrow> document \<Rightarrow> ocrState \<Rightarrow> ocrState outcome" where
  "ensureOcr e meta cfg doc ocr =
     (case ocr of (ocrText, ocrFolded, ocrRemaining) \<Rightarrow>
        if \<not> ac_ocr cfg \<or> \<not> doc_isPdf doc \<or> ocrRemaining \<le> 0 then Returns ocr
        else if ocrText \<noteq> None then Returns ocr
        else (case ocrPdfBuffer e (doc_buffer doc) (autoOcrOpts meta cfg) of
                Throws err \<Rightarrow> Throws err
              | Returns t \<Rightarrow> Returns (Some t, Some (collapse_ws (foldAscii t)), ocrRemaining - 1)))"

text \<open>The period of a candidate, lines 988 to 1014.\<close>

definition autoPeriod ::
    "env \<Rightarrow> kpiMeta \<Rightarrow> autoCfg \<Rightarrow> document \<Rightarrow> string option \<Rightarrow> string option \<Rightarrow> int \<Rightarrow>
       (string option \<times> ocrState) outcome" where
  "autoPeriod e meta cfg doc periodFromUrl periodFromText ocrRemaining =
     (let period = (case periodFromUrl of
                      Some p \<Rightarrow> Some p
                    | None \<Rightarrow> (case periodFromText of
                                 Some p \<Rightarrow> Some p
                               | None \<Rightarrow> inferPeriodFromText (doc_folded doc)))
      in if period = None \<and> ac_ocr cfg \<and> doc_isPdf doc then
           (case ensureOcr e meta cfg doc (None, None, ocrRemaining) of
              Throws err \<Rightarrow> Throws err
            | Returns ocr \<Rightarrow>
                (case fst (snd ocr) of
                   None \<Rightarrow> Returns (period, ocr)
                 | Some folded \<Rightarrow>
                     if folded = [] then Returns (period, ocr)
                     else Returns (inferPeriodFromText folded, ocr)))
         else Returns (period, (None, None, ocrRemaining)))"

text \<open>\<^verbatim>\<open>if (value === null && cond) value = next\<close>\<close>

definition or_try ::
    "real option outcome option \<Rightarrow> bool \<Rightarrow> real option outcome option \<Rightarrow> real option outcome option" where
  "or_try cur cond next = (case cur of Some (Returns None) \<Rightarrow> (if cond then next else cur) | _ \<Rightarrow> cur)"

text \<open>
  The \<^verbatim>\<open>try\<close> block of lines 1061 to 1095: the OCR text is searched with the period
  check relaxed, then line by line. Whatever is thrown inside is caught and leaves the
  value \<^verbatim>\<open>null\<close>.
\<close>

definition autoOcrValue ::
    "env \<Rightarrow> kpiMeta \<Rightarrow> autoCfg \<Rightarrow> document \<Rightarrow> string \<Rightarrow> ocrState \<Rightarrow> (real option \<times> int) option" where
  "autoOcrValue e meta cfg doc period ocr =
     (case ensureOcr e meta cfg doc ocr of
        Throws err \<Rightarrow> Some (None, snd (snd ocr))
      | Returns (ocrText, ocrFolded, ocrRemaining) \<Rightarrow>
          (case (if ocrFolded \<noteq> None \<and> ocrFolded \<noteq> Some []
                 then or_try
                        (extractValueFromText (regex e) (the ocrFolded) (km_primary meta)
                           (km_unitKind meta) (km_minValue meta) (km_maxValue meta) (Some period) False)
                        (km_fallback meta \<noteq> [])
                        (extractValueFromText (regex e) (the ocrFolded) (km_fallback meta)
                           (km_unitKind meta) (km_minValue meta) (km_maxValue meta) (Some period) False)
                 else Some (Returns None)) of
             None \<Rightarrow> None
           | Some (Throws err) \<Rightarrow> Some (None, ocrRemaining)
           | Some (Returns (Some v)) \<Rightarrow> Some (Some v, ocrRemaining)
           | Some (Returns None) \<Rightarrow>
               if ocrText \<noteq> None \<and> ocrText \<noteq> Some [] then
                 (case extractValueFromLines (regex e) (splitTextLines (the ocrText))
                         (km_rowPatterns meta) (km_unitKind meta) (km_minValue meta) (km_maxValue meta) of
                    Throws err \<Rightarrow> Some (None, ocrRemaining)
                  | Returns v \<Rightarrow> Some (v, ocrRemaining))
               else Some (None, ocrRemaining)))"

text \<open>The value of a candidate whose period is missing, lines 1016 to 1096.\<close>

definition autoValue ::
    "env \<Rightarrow> kpiMeta \<Rightarrow> autoCfg \<Rightarrow> document \<Rightarrow> string \<Rightarrow> string option \<Rightarrow> ocrState \<Rightarrow>
       (real option \<times> int) outcome option" where
  "autoValue e meta cfg doc period periodFromUrl ocr =
     (let ex = (\<lambda>patterns strict.
                  extractValueFromText (regex e) (doc_folded doc) patterns (km_unitKind meta)
                    (km_minValue meta) (km_maxValue meta) (Some period) strict);
          v1 = ex (km_primary meta) True;
          v2 = or_try v1 (km_fallback meta \<noteq> []) (ex (km_fallback meta) True);
          v3 = or_try v2 (periodFromUrl \<noteq> None)
                 (or_try (ex (km_primary meta) False) (km_fallback meta \<noteq> [])
                    (ex (km_fallback meta) False))
      in case v3 of
           None \<Rightarrow> None
         | Some (Throws err) \<Rightarrow> Some (Throws err)
         | Some (Returns (Some v)) \<Rightarrow> Some (Returns (Some v, snd (snd ocr)))
         | Some (Returns None) \<Rightarrow>
             if ac_ocr cfg \<and> doc_isPdf doc \<and> snd (snd ocr) > 0 then
               (case autoOcrValue e meta cfg doc period ocr of
                  None \<Rightarrow> None
                | Some r \<Rightarrow> Some (Returns r))
             else Some (Returns (None, snd (snd ocr))))"

text \<open>
  The state of the candidate loop: the run, the series, the set \<^verbatim>\<open>missing\<close> and the
  budget \<^verbatim>\<open>ocrRemaining\<close>.
\<close>

type_synonym autoState = "world \<times> point list \<times> string list \<times> int"

definition autoCandidate ::
    "env \<Rightarrow> kpiMeta \<Rightarrow> autoCfg \<Rightarrow> candidate \<Rightarrow> autoState \<Rightarrow> autoState option" where
  "autoCandidate e meta cfg item st =
     (case st of (w, series, missing, ocrRemaining) \<Rightarrow>
        let periodFromUrl = inferPeriodFromString (c_url item);
            periodFromText = inferPeriodFromString (c_text item)
        in if periodFromUrl \<noteq> None \<and> the periodFromUrl \<notin> set missing then Some st
           else
             (case fetchDocument e (c_url item) w of
                (Throws err, w1) \<Rightarrow> Some (w1, series, missing, ocrRemaining)
              | (Returns doc, w1) \<Rightarrow>
                  (case autoPeriod e meta cfg doc periodFromUrl periodFromText ocrRemaining of
                     Throws err \<Rightarrow> Some (w1, series, missing, ocrRemaining)
                   | Returns (period, ocr) \<Rightarrow>
                       (case period of
                          None \<Rightarrow> Some (w1, series, missing, snd (snd ocr))
                        | Some p \<Rightarrow>
                            if p \<notin> set missing then Some (w1, series, missing, snd (snd ocr))
                            else
                              (case autoValue e meta cfg doc p periodFromUrl ocr of
                                 None \<Rightarrow> None
                               | Some (Throws err) \<Rightarrow> Some (w1, series, missing, snd (snd ocr))
                               | Some (Returns (None, r)) \<Rightarrow> Some (w1, series, missing, r)
                               | Some (Returns (Some v, r)) \<Rightarrow>
                                   if p \<in> set (map p_period series)
                                   then Some (w1, setValue p (Some v) series, removeAll p missing, r)
                                   else Some (w1, series, missing, r))))))"

fun autoLoop :: "env \<Rightarrow> kpiMeta \<Rightarrow> autoCfg \<Rightarrow> candidate list \<Rightarrow> autoState \<Rightarrow> autoState option" where
  "autoLoop e meta cfg [] st = Some st"
| "autoLoop e meta cfg (item # items) st =
     (if fst (snd (snd st)) = [] then Some st
      else (case autoCandidate e meta cfg item st of
              None \<Rightarrow> None
            | Some st' \<Rightarrow> autoLoop e meta cfg items st'))"

definition missingPeriods :: "point list \<Rightarrow> string list" where
  "missingPeriods series = map p_period (filter (\<lambda>p. p_value p = None) series)"

definition autoFillSeries ::
    "env \<Rightarrow> kpiMeta option \<Rightarrow> string \<Rightarrow> autoCfg \<Rightarrow> world \<times> point list \<Rightarrow> (world \<times> point list) option" where
  "autoFillSeries e kpiMeta kpiKey cfg st =
     (case kpiMeta of
        None \<Rightarrow> Some st
      | Some meta \<Rightarrow>
          (case crawl e (fst st) of (pool, w1) \<Rightarrow>
             let candidates = rankCandidates meta kpiKey (ac_maxDocs cfg) pool;
                 missing = missingPeriods (snd st);
                 ocrRemaining = (case ac_ocrMaxDocs cfg of Some n \<Rightarrow> n | None \<Rightarrow> 8)
             in (case autoLoop e meta cfg candidates (w1, snd st, missing, ocrRemaining) of
                   None \<Rightarrow> None
                 | Some (w2, series, missing', r) \<Rightarrow> Some (w2, series))))"

text \<open>
  \<^verbatim>\<open>hydrateSeries\<close>: \<open>kpiMeta\<close> is the entry \<^verbatim>\<open>KPI_PATTERNS[kpi.key]\<close>, if there is one.
  The result is the run and the series after hydration.
\<close>

definition hydrateSeries :: "env \<Rightarrow> kpiMeta option \<Rightarrow> kpi \<Rightarrow> world \<Rightarrow> (world \<times> point list) option" where
  "hydrateSeries e kpiMeta k w =
     (let (cfg, w0) = (if k_cfg k = [] \<and> k_hasDiscover k
                       then (case discoverEntries e w of (discovered, w') \<Rightarrow> (k_cfg k @ discovered, w'))
                       else (k_cfg k, w));
          dflt = (if k_isRate k then ''percent'' else ''count'');
          unitKind = (case kpiMeta of
                        None \<Rightarrow> dflt
                      | Some meta \<Rightarrow> if km_unitKind meta = [] then dflt else km_unitKind meta);
          minValue = (case kpiMeta of None \<Rightarrow> None | Some meta \<Rightarrow> km_minValue meta);
          maxValue = (case kpiMeta of None \<Rightarrow> None | Some meta \<Rightarrow> km_maxValue meta)
      in case explicitLoop e unitKind minValue maxValue cfg (w0, k_series k) of
           None \<Rightarrow> None
         | Some st \<Rightarrow>
             if ac_enabled (k_auto k) \<and> missingPeriods (snd st) \<noteq> []
             then autoFillSeries e kpiMeta (k_key k) (k_auto k) st
             else Some st)"

section \<open>A small run\<close>

text \<open>
  A concrete environment, used to run the model. The site serves two pages for the fourth
  quarter of 2024: \<open>urlA\<close> states the number of stores, \<open>urlB\<close>, a later notice, does not,
  and a request to \<open>urlB\<close> fails when it is the second request of the run. The regular expression engine is
  given by its answers on the value pattern of the example: in the folded text of
  \<open>urlA\<close> the pattern matches once, at index 1. The crawl of the site finds the one
  link \<open>urlA\<close>, without anchor text.
\<close>

definition urlA :: string where
  "urlA = ''http://a.vn/bao-cao/2024q4.html''"

definition urlB :: string where
  "urlB = ''http://a.vn/bao-cao/2024q4-tb.html''"

definition htmlA :: string where
  "htmlA = ''<p>So cua hang: 412</p>''"

definition htmlB :: string where
  "htmlB = ''<p>Dang cap nhat</p>''"

definition storesPattern :: string where
  "storesPattern = ''so cua hang[^0-9]*([0-9]+)''"

definition demo_net :: "nat \<Rightarrow> string \<Rightarrow> string outcome" where
  "demo_net n url =
     (if url = urlA then Returns htmlA
      else if url = urlB then
        (if n = 1 then Throws (Error ''Fetch failed 503 Service Unavailable'') else Returns htmlB)
      else Throws (Error ''Fetch failed 404 Not Found''))"

definition demo_regex :: regex_engine where
  "demo_regex =
     \<lparr>rx_valid = (\<lambda>p. True),
      rx_exec = (\<lambda>p txt i.
        if p = storesPattern \<and> txt = '' so cua hang: 412 '' \<and> i \<le> 1
        then Some \<lparr>m_index = 1, m_all = ''so cua hang: 412'', m_group1 = Some ''412'',
                   m_group2 = None\<rparr>
        else None)\<rparr>"

text \<open>
  The OCR binary of the example reads the upright page, a balance sheet without any of
  the keywords, and finds no text on the page turned by 90, 180 or 270 degrees.
\<close>

definition demo_tesseract :: "string \<Rightarrow> string \<Rightarrow> int \<Rightarrow> string outcome" where
  "demo_tesseract langs img angle =
     (if angle = 0 then Returns ''Bang can doi ke toan 31.12.2024 tong tai san 12345'' else Returns [])"

definition demo_env :: env where
  "demo_env =
     \<lparr>net = demo_net,
      pdf_getText = (\<lambda>buf. Throws (Error ''Invalid PDF structure'')),
      regex = demo_regex,
      tesseract_bin = True,
      tesseract = demo_tesseract,
      js_recognize = (\<lambda>langs img. Returns []),
      render = (\<lambda>buf maxPages scale. Throws (Error ''Invalid PDF structure'')),
      crawl = (\<lambda>w. ([\<lparr>c_url = urlA, c_text = []\<rparr>], w)),
      discoverEntries = (\<lambda>w. ([], w))\<rparr>"

definition demo_ocrOpts :: ocrOpts where
  "demo_ocrOpts =
     \<lparr>o_engine = ''cli'', o_maxPages = 2, o_scale = 16 / 10, o_langs = ''eng'',
      o_rotateAngles = [0, 90, 180, 270],
      o_ocrKeywords = [''doanh thu'', ''doanh thu thuan'', ''revenue'', ''thu nhap''],
      o_requireKeywords = True\<rparr>"

definition emptyWorld :: world where
  "emptyWorld = \<lparr>cache = Map.empty, requests = []\<rparr>"

definition docB :: document where
  "docB = \<lparr>doc_text = '' Dang cap nhat '', doc_folded = '' dang cap nhat '', doc_buffer = htmlB,
           doc_isPdf = False, doc_html = htmlB\<rparr>"

definition docA :: document where
  "docA = \<lparr>doc_text = '' So cua hang: 412 '', doc_folded = '' so cua hang: 412 '',
           doc_buffer = htmlA, doc_isPdf = False, doc_html = htmlA\<rparr>"

text \<open>The states of the example run: \<open>urlA\<close> is fetched, \<open>urlB\<close> fails, \<open>urlB\<close> is fetched.\<close>

definition world1 :: world where
  "world1 = \<lparr>cache = [urlA \<mapsto> docA], requests = [urlA]\<rparr>"

definition world2 :: world where
  "world2 = \<lparr>cache = [urlA \<mapsto> docA], requests = [urlA, urlB]\<rparr>"

definition world3 :: world where
  "world3 = \<lparr>cache = [urlA \<mapsto> docA, urlB \<mapsto> docB], requests = [urlA, urlB, urlB]\<rparr>"

definition entA :: entry where
  "entA = \<lparr>e_period = ''2024Q4'', e_url = urlA, e_pattern = storesPattern\<rparr>"

definition entB :: entry where
  "entB = \<lparr>e_period = ''2024Q4'', e_url = urlB, e_pattern = storesPattern\<rparr>"

text \<open>The value a series holds for a period: that of the first point with the period.\<close>

definition lookupValue :: "point list \<Rightarrow> string \<Rightarrow> real option option" where
  "lookupValue series p = map_of (map (\<lambda>x. (p_period x, p_value x)) series) p"

text \<open>
  One turn of the loop of \<^verbatim>\<open>buildCompany\<close>: the KPI with its blank series and its part of
  the configuration.
\<close>

definition buildKpi :: "string \<Rightarrow> bool \<Rightarrow> entry list \<Rightarrow> bool \<Rightarrow> autoCfg \<Rightarrow> kpi" where
  "buildKpi key isRate explicit hasDiscover auto =
     \<lparr>k_key = key, k_isRate = isRate, k_series = blankSeries, k_cfg = explicit,
      k_hasDiscover = hasDiscover, k_auto = auto\<rparr>"

definition demo_auto :: autoCfg where
  "demo_auto =
     \<lparr>ac_enabled = True, ac_maxDocs = 0, ac_ocr = False, ac_ocrEngine = [], ac_ocrMaxDocs = None,
      ac_ocrMaxPages = 0, ac_ocrScale = 0, ac_ocrLangs = [], ac_ocrRotate = False,
      ac_ocrRequireKeywords = True\<rparr>"

text \<open>A pool of candidates for the revenue KPI, and the entry of that KPI in the table.\<close>

definition demo_meta :: kpiMeta where
  "demo_meta =
     \<lparr>km_primary = [''doanh thu thuan[^0-9]*([0-9][0-9.,]+) *(ty|trieu)?''],
      km_fallback = [],
      km_rowPatterns = [''doanh thu thuan''],
      km_unitKind = ''currency'',
      km_minValue = Some 100,
      km_maxValue = Some 60000,
      km_urlKeywords = [''bctc'', ''bao-cao-tai-chinh'', ''financial'', ''report'', ''kqkd''],
      km_requiresPdf = True,
      km_ocrKeywords = [''doanh thu'', ''doanh thu thuan'', ''revenue'', ''thu nhap'']\<rparr>"

definition item1 :: candidate where
  "item1 = \<lparr>c_url = ''http://a.vn/gioi-thieu'', c_text = ''Gioi thieu''\<rparr>"

definition item2 :: candidate where
  "item2 = \<lparr>c_url = ''http://a.vn/bctc-2025q4.pdf'', c_text = []\<rparr>"

definition item3 :: candidate where
  "item3 = \<lparr>c_url = ''http://a.vn/bctc-2024q3.pdf'', c_text = ''BCTC quy 3 nam 2024''\<rparr>"

definition item4 :: candidate where
  "item4 = \<lparr>c_url = ''http://a.vn/bctc-2025q4.pdf'', c_text = ''BCTC quy 4''\<rparr>"

text \<open>The store count KPI of the example, its entry in the table and its configuration.\<close>

definition demo_stores_meta :: kpiMeta where
  "demo_stores_meta =
     \<lparr>km_primary = [storesPattern],
      km_fallback = [],
      km_rowPatterns = [''so cua hang''],
      km_unitKind = ''count'',
      km_minValue = Some 50,
      km_maxValue = None,
      km_urlKeywords = [''cua-hang'', ''store'', ''store-network'', ''mang-luoi'', ''he-thong''],
      km_requiresPdf = False,
      km_ocrKeywords = [''cua hang'', ''store'', ''hang'']\<rparr>"

definition demo_kpi :: kpi where
  "demo_kpi = buildKpi ''stores'' False [entA, entB] False demo_auto"

text \<open>The series of the example after the first pass over the entries, and after the second.\<close>

definition series1 :: "point list" where
  "series1 = setValue ''2024Q4'' (Some 412) blankSeries"

definition series2 :: "point list" where
  "series2 = setValue ''2024Q4'' None (setValue ''2024Q4'' (Some 412) series1)"

text \<open>The same indicator with the automatic search switched off in its configuration.\<close>

definition demo_kpi_off :: kpi where
  "demo_kpi_off = buildKpi ''stores'' False [entA, entB] False (demo_auto\<lparr>ac_enabled := False\<rparr>)"

text \<open>A series with one value already filled, and the candidate found by the crawl.\<close>

definition series0 :: "point list" where
  "series0 = setValue ''2021Q1'' (Some 380) blankSeries"

definition candA :: candidate where
  "candA = \<lparr>c_url = urlA, c_text = []\<rparr>"

text \<open>
  A report in PDF on a site that serves the file, when the text layer of the file cannot be
  read.
\<close>

definition urlP :: string where
  "urlP = ''http://a.vn/bao-cao/2024q4.pdf''"

definition demo_env_pdf :: env where
  "demo_env_pdf = demo_env\<lparr>net := (\<lambda>n url. Returns ''PDF-1.7 damaged'')\<rparr>"

section \<open>Properties of the numeric parser\<close>

lemma str_includes_iff: "str_includes s k \<longleftrightarrow> (\<exists>a b. s = a @ k @ b)"
proof (induction s)
  case Nil
  then show ?case by auto
next
  case (Cons c cs)
  show ?case
  proof
    assume "str_includes (c # cs) k"
    then consider "prefix k (c # cs)" | "str_includes cs k" by auto
    then show "\<exists>a b. c # cs = a @ k @ b"
    proof cases
      case 1
      then obtain b where "c # cs = k @ b" by (auto simp: prefix_def)
      then have "c # cs = [] @ k @ b" by simp
      then show ?thesis by blast
    next
      case 2
      then obtain a b where "cs = a @ k @ b" using Cons.IH by blast
      then have "c # cs = (c # a) @ k @ b" by simp
      then show ?thesis by blast
    qed
  next
    assume "\<exists>a b. c # cs = a @ k @ b"
    then obtain a b where ab: "c # cs = a @ k @ b" by blast
    show "str_includes (c # cs) k"
    proof (cases a)
      case Nil
      then have "prefix k (c # cs)" using ab by (simp add: prefix_def)
      then show ?thesis by simp
    next
      case (Cons x a')
      then have "cs = a' @ k @ b" using ab by simp
      then have "str_includes cs k" using Cons.IH by blast
      then show ?thesis by simp
    qed
  qed
qed

subsection \<open>pickNumberToken\<close>

lemma numberTokens_nonempty_iff: "numberTokens s \<noteq> [] \<longleftrightarrow> (\<exists>c\<in>set s. is_digit c)"
  by (induction s rule: numberTokens.induct) auto

lemma numberTokens_shape:
  "t \<in> set (numberTokens s) \<Longrightarrow> t \<noteq> [] \<and> is_digit (hd t) \<and> list_all is_numch t"
proof (induction s rule: numberTokens.induct)
  case 1
  then show ?case by simp
next
  case (2 c cs)
  show ?case
  proof (cases "is_digit c")
    case True
    then consider "t = c # takeWhile is_numch cs" | "t \<in> set (numberTokens (dropWhile is_numch cs))"
      using "2.prems" by auto
    then show ?thesis
    proof cases
      case 1
      have "list_all is_numch (takeWhile is_numch cs)"
        by (simp add: list_all_iff) (meson set_takeWhileD)
      moreover have "is_numch c" using True by (simp add: is_numch_def)
      ultimately show ?thesis using 1 True by simp
    next
      case 2
      then show ?thesis using "2.IH"(1) True by blast
    qed
  next
    case False
    then show ?thesis using 2 by auto
  qed
qed

lemma digitCount_numeric: "list_all is_numch t \<Longrightarrow> digitCount t = length (filter is_digit t)"
proof -
  assume a: "list_all is_numch t"
  have nd: "\<not> is_digit (CHR ''.'')" "\<not> is_digit (CHR '','')" by (simp_all add: is_digit_def)
  have "filter (\<lambda>c. c \<noteq> CHR ''.'' \<and> c \<noteq> CHR '','') t = filter is_digit t"
    using a nd by (intro filter_cong) (auto simp: list_all_iff is_numch_def)
  then show ?thesis by (simp add: digitCount_def)
qed

lemma firstWithDigits_Some:
  "firstWithDigits n ts = Some t \<Longrightarrow>
     \<exists>pre post. ts = pre @ t # post \<and> n \<le> digitCount t \<and> (\<forall>u\<in>set pre. digitCount u < n)"
proof (induction ts)
  case Nil
  then show ?case by simp
next
  case (Cons a ts)
  show ?case
  proof (cases "n \<le> digitCount a")
    case True
    then have "t = a" using Cons.prems by simp
    then have "a # ts = [] @ t # ts \<and> n \<le> digitCount t \<and> (\<forall>u\<in>set []. digitCount u < n)"
      using True by simp
    then show ?thesis by blast
  next
    case False
    then have "firstWithDigits n ts = Some t" using Cons.prems by simp
    then obtain pre post where p: "ts = pre @ t # post" "n \<le> digitCount t" "\<forall>u\<in>set pre. digitCount u < n"
      using Cons.IH by blast
    then have "a # ts = (a # pre) @ t # post \<and> n \<le> digitCount t \<and> (\<forall>u\<in>set (a # pre). digitCount u < n)"
      using False by simp
    then show ?thesis by blast
  qed
qed

lemma firstWithDigits_None:
  "firstWithDigits n ts = None \<longleftrightarrow> (\<forall>u\<in>set ts. digitCount u < n)"
  by (induction ts) auto

lemma numberTokens_first:
  "\<exists>c\<in>set s. is_digit c \<Longrightarrow>
     \<exists>gap t rest. s = gap @ t @ rest \<and> (\<forall>c\<in>set gap. \<not> is_digit c) \<and> t \<noteq> [] \<and>
        is_digit (hd t) \<and> list_all is_numch t \<and> (rest = [] \<or> \<not> is_numch (hd rest)) \<and>
        numberTokens s = t # numberTokens rest"
proof (induction s rule: numberTokens.induct)
  case 1
  then show ?case by simp
next
  case (2 c cs)
  show ?case
  proof (cases "is_digit c")
    case True
    have n: "list_all is_numch (c # takeWhile is_numch cs)"
      using True by (auto simp: list_all_iff is_numch_def dest: set_takeWhileD)
    have r: "dropWhile is_numch cs = [] \<or> \<not> is_numch (hd (dropWhile is_numch cs))"
      using hd_dropWhile [of is_numch cs] by blast
    have "c # cs = [] @ (c # takeWhile is_numch cs) @ dropWhile is_numch cs \<and>
        (\<forall>x\<in>set []. \<not> is_digit x) \<and> c # takeWhile is_numch cs \<noteq> [] \<and>
        is_digit (hd (c # takeWhile is_numch cs)) \<and> list_all is_numch (c # takeWhile is_numch cs) \<and>
        (dropWhile is_numch cs = [] \<or> \<not> is_numch (hd (dropWhile is_numch cs))) \<and>
        numberTokens (c # cs) = (c # takeWhile is_numch cs) # numberTokens (dropWhile is_numch cs)"
      using True n r by simp
    then show ?thesis by blast
  next
    case False
    then have "\<exists>x\<in>set cs. is_digit x" using "2.prems" by auto
    then obtain gap t rest where g: "cs = gap @ t @ rest" "\<forall>x\<in>set gap. \<not> is_digit x" "t \<noteq> []"
        "is_digit (hd t)" "list_all is_numch t" "rest = [] \<or> \<not> is_numch (hd rest)"
        "numberTokens cs = t # numberTokens rest"
      using "2.IH"(2) [OF False] by blast
    have "c # cs = (c # gap) @ t @ rest \<and> (\<forall>x\<in>set (c # gap). \<not> is_digit x) \<and> t \<noteq> [] \<and>
        is_digit (hd t) \<and> list_all is_numch t \<and> (rest = [] \<or> \<not> is_numch (hd rest)) \<and>
        numberTokens (c # cs) = t # numberTokens rest"
      using g False by simp
    then show ?thesis by blast
  qed
qed

lemmas token_defs = pickNumberToken_def is_digit_def is_numch_def minDigits_def digitCount_def

text \<open>
  Claim C3, as amended. A numeric token is a match of \<^verbatim>\<open>/[0-9][0-9.,]*/g\<close> in the capture,
  found from left to right: the first token starts at the first digit of the capture and
  runs over every digit, dot and comma that follows, up to the end or to the first other
  character, and the later tokens are those of the rest. White space plays no part: any
  character other than a digit, a dot or a comma ends a token, and a token may start
  inside a word. When the capture holds a digit, \<^verbatim>\<open>pickNumberToken\<close> returns the first
  token whose digit count (dots and commas ignored) reaches the minimum of the unit kind
  (6 for currency, 2 for volume, 1 otherwise): every token before it is too short. When no
  token reaches the minimum it returns the first token. A capture without a digit is
  returned as it is.
\<close>

theorem pickNumberToken_first_qualifying:
  "((\<exists>c\<in>set raw. is_digit c) \<longrightarrow>
      (\<exists>pre t post. numberTokens raw = pre @ t # post \<and>
          pickNumberToken (Some raw) unitKind = Some t \<and>
          (\<forall>u\<in>set pre. digitCount u < minDigits unitKind) \<and>
          (minDigits unitKind \<le> digitCount t \<or>
            (pre = [] \<and> (\<forall>u\<in>set post. digitCount u < minDigits unitKind)))))
   \<and> ((\<exists>c\<in>set raw. is_digit c) \<longrightarrow>
      (\<exists>gap t rest. raw = gap @ t @ rest \<and> (\<forall>c\<in>set gap. \<not> is_digit c) \<and> t \<noteq> [] \<and>
          is_digit (hd t) \<and> list_all is_numch t \<and> (rest = [] \<or> \<not> is_numch (hd rest)) \<and>
          numberTokens raw = t # numberTokens rest))
   \<and> (numberTokens raw = [] \<longleftrightarrow> \<not> (\<exists>c\<in>set raw. is_digit c))
   \<and> (\<not> (\<exists>c\<in>set raw. is_digit c) \<longrightarrow> pickNumberToken (Some raw) unitKind = Some raw)
   \<and> (is_digit ch \<longleftrightarrow> ch \<in> set ''0123456789'')
   \<and> (is_numch ch \<longleftrightarrow> ch \<in> set ''0123456789.,'')
   \<and> minDigits ''currency'' = 6 \<and> minDigits ''volume'' = 2
   \<and> (unitKind \<noteq> ''currency'' \<and> unitKind \<noteq> ''volume'' \<longrightarrow> minDigits unitKind = 1)
   \<and> (\<forall>t\<in>set (numberTokens raw). digitCount t = length (filter is_digit t))
   \<and> pickNumberToken (Some ''Q3 2025 8.235.606 ty'') ''currency'' = Some ''8.235.606''
   \<and> pickNumberToken (Some ''12.3 45.6'') ''currency'' = Some ''12.3''
   \<and> pickNumberToken (Some ''von 1,234,567 dong'') ''currency'' = Some ''1,234,567''
   \<and> pickNumberToken (Some ''1234-567890'') ''currency'' = Some ''567890''
   \<and> pickNumberToken (Some ''Q3 2025 8.235.606 ty'') ''count'' = Some ''3''"
proof -
  have main: "\<exists>pre t post. numberTokens raw = pre @ t # post \<and>
          pickNumberToken (Some raw) unitKind = Some t \<and>
          (\<forall>u\<in>set pre. digitCount u < minDigits unitKind) \<and>
          (minDigits unitKind \<le> digitCount t \<or>
            (pre = [] \<and> (\<forall>u\<in>set post. digitCount u < minDigits unitKind)))"
    if d: "\<exists>c\<in>set raw. is_digit c"
  proof -
    have ne: "numberTokens raw \<noteq> []" using d by (simp add: numberTokens_nonempty_iff)
    show ?thesis
    proof (cases "firstWithDigits (minDigits unitKind) (numberTokens raw)")
      case None
      obtain t post where tp: "numberTokens raw = t # post" using ne by (cases "numberTokens raw") auto
      have "\<forall>u\<in>set (numberTokens raw). digitCount u < minDigits unitKind"
        using None by (simp only: firstWithDigits_None)
      then have all: "\<forall>u\<in>set (t # post). digitCount u < minDigits unitKind"
        by (simp only: tp)
      have "pickNumberToken (Some raw) unitKind = Some t"
        using None tp by (simp add: pickNumberToken_def)
      then have "numberTokens raw = [] @ t # post \<and> pickNumberToken (Some raw) unitKind = Some t \<and>
          (\<forall>u\<in>set []. digitCount u < minDigits unitKind) \<and>
          (minDigits unitKind \<le> digitCount t \<or>
            ([] = ([]::string list) \<and> (\<forall>u\<in>set post. digitCount u < minDigits unitKind)))"
        using tp all by simp
      then show ?thesis by blast
    next
      case (Some t)
      then obtain pre post where p: "numberTokens raw = pre @ t # post"
        "minDigits unitKind \<le> digitCount t" "\<forall>u\<in>set pre. digitCount u < minDigits unitKind"
        using firstWithDigits_Some by blast
      have "pickNumberToken (Some raw) unitKind = Some t"
        using Some ne by (simp add: pickNumberToken_def)
      then show ?thesis using p by blast
    qed
  qed
  have first: "(\<exists>c\<in>set raw. is_digit c) \<longrightarrow>
      (\<exists>gap t rest. raw = gap @ t @ rest \<and> (\<forall>c\<in>set gap. \<not> is_digit c) \<and> t \<noteq> [] \<and>
          is_digit (hd t) \<and> list_all is_numch t \<and> (rest = [] \<or> \<not> is_numch (hd rest)) \<and>
          numberTokens raw = t # numberTokens rest)"
    using numberTokens_first by blast
  have none: "numberTokens raw = [] \<longleftrightarrow> \<not> (\<exists>c\<in>set raw. is_digit c)"
    using numberTokens_nonempty_iff [of raw] by blast
  have nodigit: "\<not> (\<exists>c\<in>set raw. is_digit c) \<longrightarrow> pickNumberToken (Some raw) unitKind = Some raw"
    using none by (simp add: pickNumberToken_def)
  have ch: "is_digit ch \<longleftrightarrow> ch \<in> set ''0123456789''"
    "is_numch ch \<longleftrightarrow> ch \<in> set ''0123456789.,''"
    by (auto simp: is_digit_def is_numch_def)
  have count: "\<forall>t\<in>set (numberTokens raw). digitCount t = length (filter is_digit t)"
    using numberTokens_shape digitCount_numeric by blast
  have e1: "pickNumberToken (Some ''Q3 2025 8.235.606 ty'') ''currency'' = Some ''8.235.606''"
    by (simp add: token_defs)
  have e2: "pickNumberToken (Some ''12.3 45.6'') ''currency'' = Some ''12.3''"
    by (simp add: token_defs)
  have e3: "pickNumberToken (Some ''von 1,234,567 dong'') ''currency'' = Some ''1,234,567''"
    by (simp add: token_defs)
  have e4: "pickNumberToken (Some ''1234-567890'') ''currency'' = Some ''567890''"
    by (simp add: token_defs)
  have e5: "pickNumberToken (Some ''Q3 2025 8.235.606 ty'') ''count'' = Some ''3''"
    by (simp add: token_defs)
  have m: "minDigits ''currency'' = 6" "minDigits ''volume'' = 2"
    "unitKind \<noteq> ''currency'' \<and> unitKind \<noteq> ''volume'' \<longrightarrow> minDigits unitKind = 1"
    by (simp_all add: minDigits_def)
  show ?thesis
    apply (intro conjI)
    using main apply blast
    apply (rule first)
    apply (rule none)
    apply (rule nodigit)
    apply (rule ch(1))
    apply (rule ch(2))
    apply (rule m(1))
    apply (rule m(2))
    apply (rule m(3))
    apply (rule count)
    apply (rule e1)
    apply (rule e2)
    apply (rule e3)
    apply (rule e4)
    apply (rule e5)
    done
qed

text \<open>
  The theorem at the capture \<^verbatim>\<open>"12 3456789 x"\<close> for a currency: the tokens are \<^verbatim>\<open>12\<close> and
  \<^verbatim>\<open>3456789\<close>, the first is too short, and the second is returned.
\<close>

theorem pickNumberToken_first_qualifying_witness:
  "(\<exists>c\<in>set ''12 3456789 x''. is_digit c) \<and>
   numberTokens ''12 3456789 x'' = [''12'', ''3456789''] \<and>
   digitCount ''12'' = 2 \<and> digitCount ''3456789'' = 7 \<and> minDigits ''currency'' = 6 \<and>
   pickNumberToken (Some ''12 3456789 x'') ''currency'' = Some ''3456789''"
proof -
  have h: "\<exists>c\<in>set ''12 3456789 x''. is_digit c" by (simp add: is_digit_def)
  have n: "numberTokens ''12 3456789 x'' = [''12'', ''3456789'']"
    by (simp add: is_digit_def is_numch_def)
  have d: "digitCount ''12'' = 2" "digitCount ''3456789'' = 7" "minDigits ''currency'' = 6"
    by (simp_all add: digitCount_def minDigits_def)
  from pickNumberToken_first_qualifying
    [of "''12 3456789 x''" "''currency''", THEN conjunct1, THEN mp, OF h]
  obtain pre t post where r: "numberTokens ''12 3456789 x'' = pre @ t # post"
    "pickNumberToken (Some ''12 3456789 x'') ''currency'' = Some t"
    "\<forall>u\<in>set pre. digitCount u < minDigits ''currency''"
    "minDigits ''currency'' \<le> digitCount t \<or>
       (pre = [] \<and> (\<forall>u\<in>set post. digitCount u < minDigits ''currency''))"
    by (elim exE conjE)
  have l: "[''12'', ''3456789''] = pre @ t # post" using r(1) n by simp
  have "t = ''3456789''"
  proof (cases pre)
    case Nil
    then have "t = ''12''" "post = [''3456789'']" using l by simp_all
    then have False using r(4) d by simp
    then show ?thesis ..
  next
    case (Cons a pre')
    then have p: "[''3456789''] = pre' @ t # post" using l by simp
    show ?thesis
    proof (cases pre')
      case Nil
      then show ?thesis using p by simp
    next
      case (Cons b pre'')
      then show ?thesis using p by simp
    qed
  qed
  then have "pickNumberToken (Some ''12 3456789 x'') ''currency'' = Some ''3456789''"
    using r(2) by simp
  then show ?thesis using h n d by (intro conjI)
qed

text \<open>
  Claim C3 as stated fails: the token returned need not be separated by white space. The
  capture \<^verbatim>\<open>"1234-567890"\<close> holds no white space, so the only piece of it that white space
  separates is the capture itself, yet the hyphen ends the first token and the second,
  \<^verbatim>\<open>567890\<close>, is returned for a currency. For a count the capture of the first example gives
  the \<^verbatim>\<open>3\<close> of \<^verbatim>\<open>Q3\<close>, cut out of a word.
\<close>

theorem pickNumberToken_whitespace_counterexample:
  "filter is_space ''1234-567890'' = [] \<and>
   pickNumberToken (Some ''1234-567890'') ''currency'' = Some ''567890'' \<and>
   ''567890'' \<noteq> ''1234-567890'' \<and>
   pickNumberToken (Some ''Q3 2025 8.235.606 ty'') ''count'' = Some ''3'' \<and>
   take 2 ''Q3 2025 8.235.606 ty'' = ''Q3'' \<and> \<not> is_space (CHR ''Q'')"
  by (simp add: token_defs is_space_def)

subsection \<open>normalizeNumber\<close>

lemmas number_defs = normalizeNumber_def scrub_def is_digit_def strip_char_def comma_to_dot_def
  js_Number_def unsigned_literal_def digits_val_def digit_val_def

lemma digit_run:
  "list_all P xs \<Longrightarrow> ys = [] \<or> \<not> P (hd ys) \<Longrightarrow>
     takeWhile P (xs @ ys) = xs \<and> dropWhile P (xs @ ys) = ys"
proof (induction xs)
  case Nil
  then show ?case by (cases ys) auto
next
  case (Cons x xs)
  then show ?case by simp
qed

lemma not_digit: "\<not> is_digit (CHR ''.'')" "\<not> is_digit (CHR ''-'')"
  by (simp_all add: is_digit_def)

lemma unsigned_literal_int:
  assumes "list_all is_digit ip" "ip \<noteq> []"
  shows "unsigned_literal ip = Some (real (digits_val ip))"
proof -
  have t: "takeWhile is_digit ip = ip" "dropWhile is_digit ip = []"
    using assms(1) by (simp_all add: list_all_iff)
  show ?thesis using assms(2) unfolding unsigned_literal_def Let_def t by simp
qed

lemma unsigned_literal_frac:
  assumes "list_all is_digit ip" "list_all is_digit fd" "ip \<noteq> [] \<or> fd \<noteq> []"
  shows "unsigned_literal (ip @ CHR ''.'' # fd)
           = Some (real (digits_val ip) + real (digits_val fd) / 10 ^ length fd)"
proof -
  have "takeWhile is_digit (ip @ CHR ''.'' # fd) = ip \<and>
        dropWhile is_digit (ip @ CHR ''.'' # fd) = CHR ''.'' # fd"
    using assms(1) by (intro digit_run) (simp_all add: not_digit)
  then have t: "takeWhile is_digit (ip @ CHR ''.'' # fd) = ip"
    "dropWhile is_digit (ip @ CHR ''.'' # fd) = CHR ''.'' # fd"
    by blast+
  show ?thesis using assms(2,3) unfolding unsigned_literal_def Let_def t by simp
qed

lemma unsigned_literal_None_iff:
  "unsigned_literal s = None \<longleftrightarrow>
     \<not> (\<exists>ip fd. list_all is_digit ip \<and> list_all is_digit fd \<and>
          ((s = ip \<and> ip \<noteq> []) \<or> (s = ip @ CHR ''.'' # fd \<and> (ip \<noteq> [] \<or> fd \<noteq> []))))"
proof
  assume n: "unsigned_literal s = None"
  show "\<not> (\<exists>ip fd. list_all is_digit ip \<and> list_all is_digit fd \<and>
          ((s = ip \<and> ip \<noteq> []) \<or> (s = ip @ CHR ''.'' # fd \<and> (ip \<noteq> [] \<or> fd \<noteq> []))))"
  proof
    assume "\<exists>ip fd. list_all is_digit ip \<and> list_all is_digit fd \<and>
          ((s = ip \<and> ip \<noteq> []) \<or> (s = ip @ CHR ''.'' # fd \<and> (ip \<noteq> [] \<or> fd \<noteq> [])))"
    then obtain ip fd where h: "list_all is_digit ip" "list_all is_digit fd"
      "(s = ip \<and> ip \<noteq> []) \<or> (s = ip @ CHR ''.'' # fd \<and> (ip \<noteq> [] \<or> fd \<noteq> []))"
      by blast
    from h(3) show False
    proof
      assume "s = ip \<and> ip \<noteq> []"
      then show False using unsigned_literal_int [OF h(1)] n by simp
    next
      assume "s = ip @ CHR ''.'' # fd \<and> (ip \<noteq> [] \<or> fd \<noteq> [])"
      then show False using unsigned_literal_frac [OF h(1,2)] n by simp
    qed
  qed
next
  assume a: "\<not> (\<exists>ip fd. list_all is_digit ip \<and> list_all is_digit fd \<and>
          ((s = ip \<and> ip \<noteq> []) \<or> (s = ip @ CHR ''.'' # fd \<and> (ip \<noteq> [] \<or> fd \<noteq> []))))"
  define ip where "ip = takeWhile is_digit s"
  define r where "r = dropWhile is_digit s"
  have s: "s = ip @ r" by (simp add: ip_def r_def)
  have d: "list_all is_digit ip" by (auto simp: ip_def list_all_iff dest: set_takeWhileD)
  show "unsigned_literal s = None"
  proof (rule ccontr)
    assume "unsigned_literal s \<noteq> None"
    then consider "r = []" "ip \<noteq> []"
      | "r \<noteq> []" "hd r = CHR ''.''" "list_all is_digit (tl r)" "ip \<noteq> [] \<or> tl r \<noteq> []"
      unfolding unsigned_literal_def Let_def ip_def [symmetric] r_def [symmetric]
      by (auto split: if_splits)
    then show False
    proof cases
      case 1
      then have "list_all is_digit ip \<and> list_all is_digit [] \<and>
          ((s = ip \<and> ip \<noteq> []) \<or> (s = ip @ CHR ''.'' # [] \<and> (ip \<noteq> [] \<or> [] \<noteq> ([]::string))))"
        using s d by simp
      then show False using a by blast
    next
      case 2
      then have "r = CHR ''.'' # tl r" by (cases r) auto
      then have "s = ip @ CHR ''.'' # tl r" using s by simp
      then have "list_all is_digit ip \<and> list_all is_digit (tl r) \<and>
          ((s = ip \<and> ip \<noteq> []) \<or> (s = ip @ CHR ''.'' # tl r \<and> (ip \<noteq> [] \<or> tl r \<noteq> [])))"
        using d 2 by simp
      then show False using a by blast
    qed
  qed
qed

lemma js_Number_NaN_iff:
  assumes "r \<noteq> []"
  shows "js_Number r = NaN \<longleftrightarrow>
     \<not> (\<exists>sg ip fd. (sg = [] \<or> sg = ''-'') \<and> list_all is_digit ip \<and> list_all is_digit fd \<and>
          ((r = sg @ ip \<and> ip \<noteq> []) \<or> (r = sg @ ip @ CHR ''.'' # fd \<and> (ip \<noteq> [] \<or> fd \<noteq> []))))"
    (is "_ \<longleftrightarrow> \<not> ?N")
proof (cases "hd r = CHR ''-''")
  case True
  then obtain r' where r: "r = CHR ''-'' # r'" using assms by (cases r) auto
  have 1: "js_Number r = NaN \<longleftrightarrow> unsigned_literal r' = None"
    by (simp add: js_Number_def r split: option.split)
  have 2: "?N \<longleftrightarrow> (\<exists>ip fd. list_all is_digit ip \<and> list_all is_digit fd \<and>
          ((r' = ip \<and> ip \<noteq> []) \<or> (r' = ip @ CHR ''.'' # fd \<and> (ip \<noteq> [] \<or> fd \<noteq> []))))"
  proof
    assume ?N
    then obtain sg ip fd where h: "sg = [] \<or> sg = ''-''" "list_all is_digit ip"
      "list_all is_digit fd"
      "(r = sg @ ip \<and> ip \<noteq> []) \<or> (r = sg @ ip @ CHR ''.'' # fd \<and> (ip \<noteq> [] \<or> fd \<noteq> []))"
      by blast
    have "sg \<noteq> []"
    proof
      assume e: "sg = []"
      show False
      proof (cases ip)
        case Nil
        then show ?thesis using h(4) e r by simp
      next
        case (Cons x xs)
        then have "x = CHR ''-''" using h(4) e r by auto
        then show ?thesis using h(2) Cons by (simp add: not_digit)
      qed
    qed
    then have "sg = ''-''" using h(1) by simp
    then have "(r' = ip \<and> ip \<noteq> []) \<or> (r' = ip @ CHR ''.'' # fd \<and> (ip \<noteq> [] \<or> fd \<noteq> []))"
      using h(4) r by simp
    then show "\<exists>ip fd. list_all is_digit ip \<and> list_all is_digit fd \<and>
          ((r' = ip \<and> ip \<noteq> []) \<or> (r' = ip @ CHR ''.'' # fd \<and> (ip \<noteq> [] \<or> fd \<noteq> [])))"
      using h(2,3) by blast
  next
    assume "\<exists>ip fd. list_all is_digit ip \<and> list_all is_digit fd \<and>
          ((r' = ip \<and> ip \<noteq> []) \<or> (r' = ip @ CHR ''.'' # fd \<and> (ip \<noteq> [] \<or> fd \<noteq> [])))"
    then obtain ip fd where h: "list_all is_digit ip" "list_all is_digit fd"
      "(r' = ip \<and> ip \<noteq> []) \<or> (r' = ip @ CHR ''.'' # fd \<and> (ip \<noteq> [] \<or> fd \<noteq> []))"
      by blast
    have "(''-'' = [] \<or> ''-'' = ''-'') \<and> list_all is_digit ip \<and> list_all is_digit fd \<and>
          ((r = ''-'' @ ip \<and> ip \<noteq> []) \<or> (r = ''-'' @ ip @ CHR ''.'' # fd \<and> (ip \<noteq> [] \<or> fd \<noteq> [])))"
      using h r by simp
    then show ?N by blast
  qed
  show ?thesis unfolding 1 2 by (rule unsigned_literal_None_iff)
next
  case False
  have 1: "js_Number r = NaN \<longleftrightarrow> unsigned_literal r = None"
    using assms False by (simp add: js_Number_def split: option.split)
  have 2: "?N \<longleftrightarrow> (\<exists>ip fd. list_all is_digit ip \<and> list_all is_digit fd \<and>
          ((r = ip \<and> ip \<noteq> []) \<or> (r = ip @ CHR ''.'' # fd \<and> (ip \<noteq> [] \<or> fd \<noteq> []))))"
  proof
    assume ?N
    then obtain sg ip fd where h: "sg = [] \<or> sg = ''-''" "list_all is_digit ip"
      "list_all is_digit fd"
      "(r = sg @ ip \<and> ip \<noteq> []) \<or> (r = sg @ ip @ CHR ''.'' # fd \<and> (ip \<noteq> [] \<or> fd \<noteq> []))"
      by blast
    have "sg \<noteq> ''-''" using h(4) False by auto
    then have "sg = []" using h(1) by simp
    then have "(r = ip \<and> ip \<noteq> []) \<or> (r = ip @ CHR ''.'' # fd \<and> (ip \<noteq> [] \<or> fd \<noteq> []))"
      using h(4) by simp
    then show "\<exists>ip fd. list_all is_digit ip \<and> list_all is_digit fd \<and>
          ((r = ip \<and> ip \<noteq> []) \<or> (r = ip @ CHR ''.'' # fd \<and> (ip \<noteq> [] \<or> fd \<noteq> [])))"
      using h(2,3) by blast
  next
    assume "\<exists>ip fd. list_all is_digit ip \<and> list_all is_digit fd \<and>
          ((r = ip \<and> ip \<noteq> []) \<or> (r = ip @ CHR ''.'' # fd \<and> (ip \<noteq> [] \<or> fd \<noteq> [])))"
    then obtain ip fd where h: "list_all is_digit ip" "list_all is_digit fd"
      "(r = ip \<and> ip \<noteq> []) \<or> (r = ip @ CHR ''.'' # fd \<and> (ip \<noteq> [] \<or> fd \<noteq> []))"
      by blast
    have "(([]::string) = [] \<or> [] = ''-'') \<and> list_all is_digit ip \<and> list_all is_digit fd \<and>
          ((r = [] @ ip \<and> ip \<noteq> []) \<or> (r = [] @ ip @ CHR ''.'' # fd \<and> (ip \<noteq> [] \<or> fd \<noteq> [])))"
      using h by simp
    then show ?N by blast
  qed
  show ?thesis unfolding 1 2 by (rule unsigned_literal_None_iff)
qed

lemma js_Number_value:
  assumes "list_all is_digit ip" "list_all is_digit fd"
  shows "ip \<noteq> [] \<Longrightarrow> js_Number ip = Fin (real (digits_val ip))"
    and "ip \<noteq> [] \<Longrightarrow> js_Number (CHR ''-'' # ip) = Fin (- real (digits_val ip))"
    and "ip \<noteq> [] \<or> fd \<noteq> [] \<Longrightarrow> js_Number (ip @ CHR ''.'' # fd)
           = Fin (real (digits_val ip) + real (digits_val fd) / 10 ^ length fd)"
    and "ip \<noteq> [] \<or> fd \<noteq> [] \<Longrightarrow> js_Number (CHR ''-'' # ip @ CHR ''.'' # fd)
           = Fin (- (real (digits_val ip) + real (digits_val fd) / 10 ^ length fd))"
proof -
  have h: "hd (ip @ CHR ''.'' # fd) \<noteq> CHR ''-''"
    using assms(1) by (cases ip) (auto simp: not_digit)
  show "js_Number ip = Fin (real (digits_val ip))" if "ip \<noteq> []"
  proof -
    have "hd ip \<noteq> CHR ''-''" using assms(1) that by (cases ip) (auto simp: not_digit)
    then show ?thesis using that unsigned_literal_int [OF assms(1) that]
      by (simp add: js_Number_def)
  qed
  show "js_Number (CHR ''-'' # ip) = Fin (- real (digits_val ip))" if "ip \<noteq> []"
    using unsigned_literal_int [OF assms(1) that] by (simp add: js_Number_def)
  show "js_Number (ip @ CHR ''.'' # fd)
           = Fin (real (digits_val ip) + real (digits_val fd) / 10 ^ length fd)"
    if "ip \<noteq> [] \<or> fd \<noteq> []"
    using unsigned_literal_frac [OF assms that] h by (simp add: js_Number_def)
  show "js_Number (CHR ''-'' # ip @ CHR ''.'' # fd)
           = Fin (- (real (digits_val ip) + real (digits_val fd) / 10 ^ length fd))"
    if "ip \<noteq> [] \<or> fd \<noteq> []"
    using unsigned_literal_frac [OF assms that] by (simp add: js_Number_def)
qed

text \<open>
  Claim C2, as amended. \<^verbatim>\<open>normalizeNumber\<close> returns \<^verbatim>\<open>null\<close> for a missing or empty input.
  Any other input is scrubbed to digits, commas, dots and minus signs and rewritten by the
  first rule that applies: two or more dots and no comma, the dots are removed; two or more
  commas and no dot, the commas are removed; one comma and no dot, the comma becomes a dot;
  both present, the commas are removed; otherwise nothing is rewritten. The result is
  \<^verbatim>\<open>Number\<close> of the rewritten string. On a rewritten string that is not empty, \<^verbatim>\<open>Number\<close> is
  \<^verbatim>\<open>NaN\<close> exactly when the string is not a decimal numeral, that is an optional minus sign,
  then digits, or digits, a dot and digits with at least one digit in all; on a numeral it is
  the decimal value. \<^verbatim>\<open>normalizeByUnit\<close> turns \<^verbatim>\<open>NaN\<close> into \<^verbatim>\<open>null\<close>. The four examples of the
  test suite are part of the statement.
\<close>

theorem normalizeNumber_rules:
  "normalizeNumber None = None \<and> normalizeNumber (Some []) = None \<and>
   (s \<noteq> [] \<longrightarrow>
      (let cleaned = scrub s;
           dotCount = count_list cleaned (CHR ''.'');
           commaCount = count_list cleaned (CHR '','')
       in (1 < dotCount \<and> commaCount = 0 \<longrightarrow>
             normalizeNumber (Some s) = Some (js_Number (strip_char (CHR ''.'') cleaned))) \<and>
          (1 < commaCount \<and> dotCount = 0 \<longrightarrow>
             normalizeNumber (Some s) = Some (js_Number (strip_char (CHR '','') cleaned))) \<and>
          (commaCount = 1 \<and> dotCount = 0 \<longrightarrow>
             normalizeNumber (Some s) = Some (js_Number (comma_to_dot cleaned))) \<and>
          (1 \<le> commaCount \<and> 1 \<le> dotCount \<longrightarrow>
             normalizeNumber (Some s) = Some (js_Number (strip_char (CHR '','') cleaned))) \<and>
          (commaCount = 0 \<and> dotCount \<le> 1 \<longrightarrow>
             normalizeNumber (Some s) = Some (js_Number cleaned)))) \<and>
   (r \<noteq> [] \<longrightarrow>
      (js_Number r = NaN \<longleftrightarrow>
         \<not> (\<exists>sg ip fd. (sg = [] \<or> sg = ''-'') \<and> list_all is_digit ip \<and> list_all is_digit fd \<and>
              ((r = sg @ ip \<and> ip \<noteq> []) \<or>
               (r = sg @ ip @ CHR ''.'' # fd \<and> (ip \<noteq> [] \<or> fd \<noteq> [])))))) \<and>
   (list_all is_digit ip \<and> list_all is_digit fd \<and> ip \<noteq> [] \<longrightarrow>
      js_Number ip = Fin (real (digits_val ip)) \<and>
      js_Number (CHR ''-'' # ip) = Fin (- real (digits_val ip))) \<and>
   (list_all is_digit ip \<and> list_all is_digit fd \<and> (ip \<noteq> [] \<or> fd \<noteq> []) \<longrightarrow>
      js_Number (ip @ CHR ''.'' # fd)
        = Fin (real (digits_val ip) + real (digits_val fd) / 10 ^ length fd) \<and>
      js_Number (CHR ''-'' # ip @ CHR ''.'' # fd)
        = Fin (- (real (digits_val ip) + real (digits_val fd) / 10 ^ length fd))) \<and>
   normalizeByUnit (Some NaN) unitToken context unitKind = None \<and>
   scrub s = filter (\<lambda>c. c \<in> set ''0123456789,.-'') s \<and>
   normalizeNumber (Some ''VND 1.234.567 dong'') = Some (Fin 1234567) \<and>
   normalizeNumber (Some ''1.234.567'') = Some (Fin 1234567) \<and>
   normalizeNumber (Some ''1,234,567'') = Some (Fin 1234567) \<and>
   normalizeNumber (Some ''1,234.56'') = Some (Fin (123456 / 100)) \<and>
   normalizeNumber (Some ''1,23'') = Some (Fin (123 / 100)) \<and>
   normalizeNumber (Some ''12-34'') = Some NaN \<and>
   normalizeNumber (Some ''1.2.3,4'') = Some NaN"
proof -
  have a: "normalizeNumber None = None" "normalizeNumber (Some []) = None"
    by (simp_all add: normalizeNumber_def)
  have b: "s \<noteq> [] \<longrightarrow>
      (let cleaned = scrub s;
           dotCount = count_list cleaned (CHR ''.'');
           commaCount = count_list cleaned (CHR '','')
       in (1 < dotCount \<and> commaCount = 0 \<longrightarrow>
             normalizeNumber (Some s) = Some (js_Number (strip_char (CHR ''.'') cleaned))) \<and>
          (1 < commaCount \<and> dotCount = 0 \<longrightarrow>
             normalizeNumber (Some s) = Some (js_Number (strip_char (CHR '','') cleaned))) \<and>
          (commaCount = 1 \<and> dotCount = 0 \<longrightarrow>
             normalizeNumber (Some s) = Some (js_Number (comma_to_dot cleaned))) \<and>
          (1 \<le> commaCount \<and> 1 \<le> dotCount \<longrightarrow>
             normalizeNumber (Some s) = Some (js_Number (strip_char (CHR '','') cleaned))) \<and>
          (commaCount = 0 \<and> dotCount \<le> 1 \<longrightarrow>
             normalizeNumber (Some s) = Some (js_Number cleaned)))"
    by (simp add: normalizeNumber_def Let_def)
  have c: "r \<noteq> [] \<longrightarrow>
      (js_Number r = NaN \<longleftrightarrow>
         \<not> (\<exists>sg ip fd. (sg = [] \<or> sg = ''-'') \<and> list_all is_digit ip \<and> list_all is_digit fd \<and>
              ((r = sg @ ip \<and> ip \<noteq> []) \<or>
               (r = sg @ ip @ CHR ''.'' # fd \<and> (ip \<noteq> [] \<or> fd \<noteq> [])))))"
    by (rule impI) (erule js_Number_NaN_iff)
  have d1: "list_all is_digit ip \<and> list_all is_digit fd \<and> ip \<noteq> [] \<longrightarrow>
      js_Number ip = Fin (real (digits_val ip)) \<and>
      js_Number (CHR ''-'' # ip) = Fin (- real (digits_val ip))"
    using js_Number_value(1,2) [of ip fd] by simp
  have d2: "list_all is_digit ip \<and> list_all is_digit fd \<and> (ip \<noteq> [] \<or> fd \<noteq> []) \<longrightarrow>
      js_Number (ip @ CHR ''.'' # fd)
        = Fin (real (digits_val ip) + real (digits_val fd) / 10 ^ length fd) \<and>
      js_Number (CHR ''-'' # ip @ CHR ''.'' # fd)
        = Fin (- (real (digits_val ip) + real (digits_val fd) / 10 ^ length fd))"
    using js_Number_value(3,4) [of ip fd] by simp
  have n: "normalizeByUnit (Some NaN) unitToken context unitKind = None"
    by (simp add: normalizeByUnit_def)
  have sc: "scrub s = filter (\<lambda>c. c \<in> set ''0123456789,.-'') s"
    unfolding scrub_def by (rule filter_cong) (auto simp: is_digit_def)
  have e0: "normalizeNumber (Some ''VND 1.234.567 dong'') = Some (Fin 1234567)"
    by (simp add: number_defs)
  have e1: "normalizeNumber (Some ''1.234.567'') = Some (Fin 1234567)"
    by (simp add: number_defs)
  have e2: "normalizeNumber (Some ''1,234,567'') = Some (Fin 1234567)"
    by (simp add: number_defs)
  have e3: "normalizeNumber (Some ''1,234.56'') = Some (Fin (123456 / 100))"
    by (simp add: number_defs)
  have e4: "normalizeNumber (Some ''1,23'') = Some (Fin (123 / 100))"
    by (simp add: number_defs)
  have e5: "normalizeNumber (Some ''12-34'') = Some NaN"
    by (simp add: number_defs)
  have e6: "normalizeNumber (Some ''1.2.3,4'') = Some NaN"
    by (simp add: number_defs)
  show ?thesis
    apply (intro conjI)
    apply (rule a(1))
    apply (rule a(2))
    apply (rule b)
    apply (rule c)
    apply (rule d1)
    apply (rule d2)
    apply (rule n)
    apply (rule sc)
    apply (rule e0)
    apply (rule e1)
    apply (rule e2)
    apply (rule e3)
    apply (rule e4)
    apply (rule e5)
    apply (rule e6)
    done
qed

text \<open>
  The theorem at \<^verbatim>\<open>"12.345,6"\<close>, where both separators occur: the comma is removed, and the
  rewritten string \<^verbatim>\<open>12.3456\<close> is a numeral, so the result is its value and not \<^verbatim>\<open>NaN\<close>.
\<close>

theorem normalizeNumber_rules_witness:
  "''12.345,6'' \<noteq> [] \<and>
   1 \<le> count_list (scrub ''12.345,6'') (CHR '','') \<and>
   1 \<le> count_list (scrub ''12.345,6'') (CHR ''.'') \<and>
   strip_char (CHR '','') (scrub ''12.345,6'') = ''12.3456'' \<and>
   normalizeNumber (Some ''12.345,6'') = Some (js_Number ''12.3456'') \<and>
   list_all is_digit ''12'' \<and> list_all is_digit ''3456'' \<and>
   js_Number ''12.3456'' \<noteq> NaN \<and>
   js_Number ''12.3456'' = Fin (123456 / 10000)"
proof -
  note T = normalizeNumber_rules [where s = "''12.345,6''" and r = "''12.3456''"
      and ip = "''12''" and fd = "''3456''"]
  have h: "''12.345,6'' \<noteq> []" "1 \<le> count_list (scrub ''12.345,6'') (CHR '','')"
    "1 \<le> count_list (scrub ''12.345,6'') (CHR ''.'')"
    by (simp_all add: scrub_def is_digit_def)
  have st: "strip_char (CHR '','') (scrub ''12.345,6'') = ''12.3456''"
    by (simp add: scrub_def strip_char_def is_digit_def)
  note rules = T [THEN conjunct2, THEN conjunct2, THEN conjunct1, THEN mp, OF h(1),
      unfolded Let_def]
  have "normalizeNumber (Some ''12.345,6'')
      = Some (js_Number (strip_char (CHR '','') (scrub ''12.345,6'')))"
    using rules [THEN conjunct2, THEN conjunct2, THEN conjunct2, THEN conjunct1, THEN mp,
        OF conjI, OF h(2,3)] .
  then have r: "normalizeNumber (Some ''12.345,6'') = Some (js_Number ''12.3456'')"
    by (simp only: st)
  have g: "list_all is_digit ''12''" "list_all is_digit ''3456''"
    by (simp_all add: is_digit_def)
  have num: "\<exists>sg ip fd. (sg = [] \<or> sg = ''-'') \<and> list_all is_digit ip \<and> list_all is_digit fd \<and>
              ((''12.3456'' = sg @ ip \<and> ip \<noteq> []) \<or>
               (''12.3456'' = sg @ ip @ CHR ''.'' # fd \<and> (ip \<noteq> [] \<or> fd \<noteq> [])))"
    by (rule exI [of _ "[]"], rule exI [of _ "''12''"], rule exI [of _ "''3456''"])
       (simp add: is_digit_def)
  have ne: "''12.3456'' \<noteq> []" by simp
  have nn: "js_Number ''12.3456'' \<noteq> NaN"
    using T [THEN conjunct2, THEN conjunct2, THEN conjunct2, THEN conjunct1, THEN mp, OF ne] num
    by simp
  have "js_Number (''12'' @ CHR ''.'' # ''3456'')
        = Fin (real (digits_val ''12'') + real (digits_val ''3456'') / 10 ^ length ''3456'')"
    using T [THEN conjunct2, THEN conjunct2, THEN conjunct2, THEN conjunct2, THEN conjunct2,
        THEN conjunct1] g
    by simp
  then have v: "js_Number ''12.3456'' = Fin (123456 / 10000)"
    by (simp add: digits_val_def digit_val_def)
  show ?thesis using h st r g nn v by (intro conjI)
qed

text \<open>
  Claim C2 as stated fails: unparsable input is not answered by \<^verbatim>\<open>null\<close>. The range
  \<^verbatim>\<open>"12-34"\<close> and the string \<^verbatim>\<open>"1.2.3,4"\<close>, rewritten to \<^verbatim>\<open>1.2.34\<close>, are no numerals, and
  \<^verbatim>\<open>normalizeNumber\<close> returns \<^verbatim>\<open>NaN\<close> for them.
\<close>

theorem normalizeNumber_unparsable_counterexample:
  "normalizeNumber (Some ''12-34'') = Some NaN \<and> normalizeNumber (Some ''12-34'') \<noteq> None \<and>
   normalizeNumber (Some ''1.2.3,4'') = Some NaN \<and> normalizeNumber (Some ''1.2.3,4'') \<noteq> None"
  by (simp add: number_defs)

text \<open>
  An input whose rewritten string is empty is a different matter. It is past the test
  \<^verbatim>\<open>if (!str)\<close>, which looks at the input before the scrub, \<^verbatim>\<open>Number("")\<close> is 0, and 0
  passes \<^verbatim>\<open>Number.isFinite\<close> in \<^verbatim>\<open>normalizeByUnit\<close>: a capture without a digit becomes
  the value 0.
\<close>

lemma normalizeNumber_empty_rewrite:
  "normalizeNumber (Some ''N/A'') = Some (Fin 0)"
  "normalizeNumber (Some ''..'') = Some (Fin 0)"
  "normalizeByUnit (normalizeNumber (Some ''N/A'')) [] [] ''count'' = Some 0"
  by (simp_all add: number_defs normalizeByUnit_def)

subsection \<open>normalizeByUnit\<close>

lemmas unit_defs = normalizeByUnit_def foldAscii_def toLowerChar_def

text \<open>
  Claim C4, as amended. For a finite value of kind currency the folded unit token decides
  first, in this order: a token with \<^verbatim>\<open>billion\<close> or \<^verbatim>\<open>ty\<close> leaves the value unchanged; else a
  token with \<^verbatim>\<open>million\<close> or \<^verbatim>\<open>trieu\<close> divides it by 1000; else a token with \<^verbatim>\<open>usd\<close> gives
  \<^verbatim>\<open>null\<close>. Failing that the folded context decides: \<^verbatim>\<open>trieu\<close> or \<^verbatim>\<open>million\<close> divides by
  1000, else \<^verbatim>\<open>ty\<close> or \<^verbatim>\<open>billion\<close> leaves the value unchanged. Only when neither the token nor
  the context names a unit is the scale inferred from the magnitude: divided by 1e9 from
  1e6 on, by 1e3 from 1e3 on, unchanged below. The two examples are part of the statement.
\<close>

theorem normalizeByUnit_currency_rules:
  "(let token = foldAscii unitToken; ctx = foldAscii context;
        r = normalizeByUnit (Some (Fin x)) unitToken context ''currency'';
        tokBillion = (str_includes token ''billion'' \<or> str_includes token ''ty'');
        tokMillion = (str_includes token ''million'' \<or> str_includes token ''trieu'');
        tokUsd = str_includes token ''usd'';
        ctxMillion = (str_includes ctx ''trieu'' \<or> str_includes ctx ''million'');
        ctxBillion = (str_includes ctx ''ty'' \<or> str_includes ctx ''billion'')
    in (tokBillion \<longrightarrow> r = Some x) \<and>
       (\<not> tokBillion \<and> tokMillion \<longrightarrow> r = Some (x / 1000)) \<and>
       (\<not> tokBillion \<and> \<not> tokMillion \<and> tokUsd \<longrightarrow> r = None) \<and>
       (\<not> tokBillion \<and> \<not> tokMillion \<and> \<not> tokUsd \<and> ctxMillion \<longrightarrow> r = Some (x / 1000)) \<and>
       (\<not> tokBillion \<and> \<not> tokMillion \<and> \<not> tokUsd \<and> \<not> ctxMillion \<and> ctxBillion \<longrightarrow> r = Some x) \<and>
       (\<not> tokBillion \<and> \<not> tokMillion \<and> \<not> tokUsd \<and> \<not> ctxMillion \<and> \<not> ctxBillion \<longrightarrow>
          (1000000 \<le> \<bar>x\<bar> \<longrightarrow> r = Some (x / 1000000000)) \<and>
          (1000 \<le> \<bar>x\<bar> \<and> \<bar>x\<bar> < 1000000 \<longrightarrow> r = Some (x / 1000)) \<and>
          (\<bar>x\<bar> < 1000 \<longrightarrow> r = Some x))) \<and>
   normalizeByUnit (Some (Fin 8235606)) ''ty'' ''doanh thu thuan 8.235.606 ty'' ''currency''
     = Some 8235606 \<and>
   normalizeByUnit (Some (Fin 8235606)) ''trieu'' ''doanh thu thuan 8.235.606 trieu'' ''currency''
     = Some (8235606 / 1000)"
proof -
  have e1: "normalizeByUnit (Some (Fin 8235606)) ''ty'' ''doanh thu thuan 8.235.606 ty'' ''currency''
     = Some 8235606"
    by (simp add: unit_defs)
  have e2: "normalizeByUnit (Some (Fin 8235606)) ''trieu'' ''doanh thu thuan 8.235.606 trieu'' ''currency''
     = Some (8235606 / 1000)"
    by (simp add: unit_defs)
  show ?thesis
    apply (rule conjI)
     apply (simp add: normalizeByUnit_def Let_def)
    apply (rule conjI)
     apply (rule e1)
    apply (rule e2)
    done
qed

text \<open>The theorem at the value 8235606 with token \<^verbatim>\<open>"dong"\<close>: no unit word anywhere.\<close>

theorem normalizeByUnit_currency_rules_witness:
  "\<not> str_includes (foldAscii ''dong'') ''billion'' \<and> \<not> str_includes (foldAscii ''dong'') ''ty'' \<and>
   \<not> str_includes (foldAscii ''dong'') ''million'' \<and> \<not> str_includes (foldAscii ''dong'') ''trieu'' \<and>
   \<not> str_includes (foldAscii ''dong'') ''usd'' \<and>
   \<not> str_includes (foldAscii ''loi nhuan 8.235.606 dong'') ''trieu'' \<and>
   \<not> str_includes (foldAscii ''loi nhuan 8.235.606 dong'') ''million'' \<and>
   \<not> str_includes (foldAscii ''loi nhuan 8.235.606 dong'') ''ty'' \<and>
   \<not> str_includes (foldAscii ''loi nhuan 8.235.606 dong'') ''billion'' \<and>
   (1000000::real) \<le> \<bar>8235606\<bar> \<and>
   normalizeByUnit (Some (Fin 8235606)) ''dong'' ''loi nhuan 8.235.606 dong'' ''currency''
     = Some (8235606 / 1000000000)"
proof -
  have h: "\<not> str_includes (foldAscii ''dong'') ''billion''" "\<not> str_includes (foldAscii ''dong'') ''ty''"
   "\<not> str_includes (foldAscii ''dong'') ''million''" "\<not> str_includes (foldAscii ''dong'') ''trieu''"
   "\<not> str_includes (foldAscii ''dong'') ''usd''"
   "\<not> str_includes (foldAscii ''loi nhuan 8.235.606 dong'') ''trieu''"
   "\<not> str_includes (foldAscii ''loi nhuan 8.235.606 dong'') ''million''"
   "\<not> str_includes (foldAscii ''loi nhuan 8.235.606 dong'') ''ty''"
   "\<not> str_includes (foldAscii ''loi nhuan 8.235.606 dong'') ''billion''"
    by (simp_all add: foldAscii_def toLowerChar_def)
  have m: "(1000000::real) \<le> \<bar>8235606\<bar>" by simp
  have r: "normalizeByUnit (Some (Fin 8235606)) ''dong'' ''loi nhuan 8.235.606 dong'' ''currency''
     = Some (8235606 / 1000000000)"
    using normalizeByUnit_currency_rules [of "''dong''" "''loi nhuan 8.235.606 dong''" 8235606] h m
    by (simp only: Let_def) blast
  show ?thesis using h m r by blast
qed

text \<open>
  Claim C4 as stated fails: with no unit token at all and a magnitude above 1e6 the value
  is not divided by 1e9 when the context of the match names the unit.
\<close>

theorem normalizeByUnit_context_counterexample:
  "normalizeByUnit (Some (Fin 8235606)) '''' ''doanh thu thuan 8.235.606 ty'' ''currency'' = Some 8235606 \<and>
   normalizeByUnit (Some (Fin 8235606)) '''' ''doanh thu thuan 8.235.606 ty'' ''currency''
     \<noteq> Some (8235606 / 1000000000)"
  by (simp add: unit_defs)

section \<open>Properties of the period check\<close>

lemma foldAscii_length [simp]: "length (foldAscii s) = length s"
  by (simp add: foldAscii_def)

lemma foldAscii_append [simp]: "foldAscii (a @ b) = foldAscii a @ foldAscii b"
  by (simp add: foldAscii_def)

lemma prefix_ci_iff: "prefix_ci lit s \<longleftrightarrow> (\<exists>l r. s = l @ r \<and> foldAscii l = foldAscii lit)"
proof
  assume "prefix_ci lit s"
  then obtain z where z: "map toLowerChar s = map toLowerChar lit @ z"
    by (auto simp: prefix_ci_def prefix_def)
  then have len: "length lit \<le> length s"
    by (metis length_append length_map le_add1)
  have "map toLowerChar (take (length lit) s) = take (length lit) (map toLowerChar s)"
    by (simp add: take_map)
  also have "\<dots> = map toLowerChar lit" using z by simp
  finally have "foldAscii (take (length lit) s) = foldAscii lit" by (simp add: foldAscii_def)
  moreover have "s = take (length lit) s @ drop (length lit) s" by simp
  ultimately show "\<exists>l r. s = l @ r \<and> foldAscii l = foldAscii lit" by blast
next
  assume "\<exists>l r. s = l @ r \<and> foldAscii l = foldAscii lit"
  then obtain l r where "s = l @ r" "foldAscii l = foldAscii lit" by blast
  then show "prefix_ci lit s" by (simp add: prefix_ci_def foldAscii_def)
qed

lemma ws_then_iff:
  "ws_then lit s \<longleftrightarrow> (\<exists>sp l r. s = sp @ l @ r \<and> list_all is_space sp \<and> foldAscii l = foldAscii lit)"
proof (induction s)
  case Nil
  then show ?case by (auto simp: foldAscii_def)
next
  case (Cons c cs)
  show ?case
  proof
    assume "ws_then lit (c # cs)"
    then consider "prefix_ci lit (c # cs)" | "is_space c" "ws_then lit cs" by auto
    then show "\<exists>sp l r. c # cs = sp @ l @ r \<and> list_all is_space sp \<and> foldAscii l = foldAscii lit"
    proof cases
      case 1
      then obtain l r where "c # cs = l @ r" "foldAscii l = foldAscii lit"
        using prefix_ci_iff by blast
      then have "c # cs = [] @ l @ r \<and> list_all is_space [] \<and> foldAscii l = foldAscii lit" by simp
      then show ?thesis by blast
    next
      case 2
      then obtain sp l r where "cs = sp @ l @ r" "list_all is_space sp" "foldAscii l = foldAscii lit"
        using Cons.IH by blast
      then have "c # cs = (c # sp) @ l @ r \<and> list_all is_space (c # sp) \<and> foldAscii l = foldAscii lit"
        using 2(1) by simp
      then show ?thesis by blast
    qed
  next
    assume "\<exists>sp l r. c # cs = sp @ l @ r \<and> list_all is_space sp \<and> foldAscii l = foldAscii lit"
    then obtain sp l r where h: "c # cs = sp @ l @ r" "list_all is_space sp" "foldAscii l = foldAscii lit"
      by blast
    show "ws_then lit (c # cs)"
    proof (cases sp)
      case Nil
      then have "prefix_ci lit (c # cs)" using h prefix_ci_iff by auto
      then show ?thesis by simp
    next
      case (Cons x sp')
      then have "x = c" "cs = sp' @ l @ r" "is_space c" "list_all is_space sp'" using h by auto
      then have "ws_then lit cs" using Cons.IH h(3) by blast
      then show ?thesis using \<open>is_space c\<close> by simp
    qed
  qed
qed

lemma regex_test_iff: "regex_test m s \<longleftrightarrow> (\<exists>a b. s = a @ b \<and> m b)"
proof (induction s)
  case Nil
  then show ?case by simp
next
  case (Cons c cs)
  show ?case
  proof
    assume "regex_test m (c # cs)"
    then consider "m (c # cs)" | "regex_test m cs" by auto
    then show "\<exists>a b. c # cs = a @ b \<and> m b"
    proof cases
      case 1
      then have "c # cs = [] @ (c # cs) \<and> m (c # cs)" by simp
      then show ?thesis by blast
    next
      case 2
      then obtain a b where "cs = a @ b" "m b" using Cons.IH by blast
      then have "c # cs = (c # a) @ b \<and> m b" by simp
      then show ?thesis by blast
    qed
  next
    assume "\<exists>a b. c # cs = a @ b \<and> m b"
    then obtain a b where h: "c # cs = a @ b" "m b" by blast
    show "regex_test m (c # cs)"
    proof (cases a)
      case Nil
      then have "m (c # cs)" using h by simp
      then show ?thesis by simp
    next
      case (Cons x a')
      then have "cs = a' @ b" using h by simp
      then have "regex_test m cs" using Cons.IH h(2) by blast
      then show ?thesis by simp
    qed
  qed
qed

lemma marker_at_iff:
  "marker_at word lit s \<longleftrightarrow>
     (\<exists>wd sp l r. s = wd @ sp @ l @ r \<and> foldAscii wd = foldAscii word \<and> list_all is_space sp \<and>
        foldAscii l = foldAscii lit)"
proof
  assume "marker_at word lit s"
  then have p: "prefix_ci word s" and w: "ws_then lit (drop (length word) s)"
    by (simp_all add: marker_at_def)
  from p obtain wd r' where wd: "s = wd @ r'" "foldAscii wd = foldAscii word"
    using prefix_ci_iff by blast
  then have "length wd = length word" by (metis foldAscii_length)
  then have "drop (length word) s = r'" using wd(1) by simp
  then obtain sp l r where "r' = sp @ l @ r" "list_all is_space sp" "foldAscii l = foldAscii lit"
    using w ws_then_iff by metis
  then have "s = wd @ sp @ l @ r \<and> foldAscii wd = foldAscii word \<and> list_all is_space sp \<and>
        foldAscii l = foldAscii lit" using wd by simp
  then show "\<exists>wd sp l r. s = wd @ sp @ l @ r \<and> foldAscii wd = foldAscii word \<and> list_all is_space sp \<and>
        foldAscii l = foldAscii lit" by blast
next
  assume "\<exists>wd sp l r. s = wd @ sp @ l @ r \<and> foldAscii wd = foldAscii word \<and> list_all is_space sp \<and>
        foldAscii l = foldAscii lit"
  then obtain wd sp l r where h: "s = wd @ sp @ l @ r" "foldAscii wd = foldAscii word"
      "list_all is_space sp" "foldAscii l = foldAscii lit" by blast
  then have len: "length wd = length word" by (metis foldAscii_length)
  have "prefix_ci word s" using h(1,2) prefix_ci_iff by blast
  moreover have "drop (length word) s = sp @ l @ r" using h(1) len by simp
  then have "ws_then lit (drop (length word) s)" using h(3,4) ws_then_iff by metis
  ultimately show "marker_at word lit s" by (simp add: marker_at_def)
qed

lemma slice_nth: "slice a b s = map (\<lambda>i. s ! i) [a ..< min b (length s)]"
proof (rule nth_equalityI)
  show "length (slice a b s) = length (map (\<lambda>i. s ! i) [a ..< min b (length s)])"
    by (auto simp: slice_def)
next
  fix i assume "i < length (slice a b s)"
  then have i: "i < b - a" "i < length s - a" by (simp_all add: slice_def)
  then have "a + i < min b (length s)" by arith
  then have "[a ..< min b (length s)] ! i = a + i" by simp
  moreover have "i < length [a ..< min b (length s)]" using i by simp
  ultimately show "slice a b s ! i = map (\<lambda>i. s ! i) [a ..< min b (length s)] ! i"
    using i by (simp add: slice_def)
qed


lemma quarterRegex_iff:
  "regex_test (quarterRegex q roman) w \<longleftrightarrow>
     (\<exists>a wd sp lit b. w = a @ wd @ sp @ lit @ b \<and> list_all is_space sp \<and>
        ((foldAscii wd = foldAscii ''q'' \<and> foldAscii lit = foldAscii q) \<or>
         (foldAscii wd = foldAscii ''quy'' \<and>
            (foldAscii lit = foldAscii q \<or> foldAscii lit = foldAscii roman))))"
  (is "?L \<longleftrightarrow> ?R")
proof
  assume ?L
  then obtain a b where ab: "w = a @ b" "quarterRegex q roman b"
    using regex_test_iff by blast
  from ab(2) have "marker_at ''q'' q b \<or> marker_at ''quy'' q b \<or> marker_at ''quy'' roman b"
    by (simp only: quarterRegex_def)
  then consider "marker_at ''q'' q b" | "marker_at ''quy'' q b" | "marker_at ''quy'' roman b"
    by blast
  then show ?R
  proof cases
    case 1
    from 1 [unfolded marker_at_iff]
    obtain wd sp l r where m: "b = wd @ sp @ l @ r" "foldAscii wd = foldAscii ''q''"
      "list_all is_space sp" "foldAscii l = foldAscii q" by (elim exE conjE)
    show ?thesis
      by (intro exI[of _ a] exI[of _ wd] exI[of _ sp] exI[of _ l] exI[of _ r])
         (simp add: ab(1) m)
  next
    case 2
    from 2 [unfolded marker_at_iff]
    obtain wd sp l r where m: "b = wd @ sp @ l @ r" "foldAscii wd = foldAscii ''quy''"
      "list_all is_space sp" "foldAscii l = foldAscii q" by (elim exE conjE)
    show ?thesis
      by (intro exI[of _ a] exI[of _ wd] exI[of _ sp] exI[of _ l] exI[of _ r])
         (simp add: ab(1) m)
  next
    case 3
    from 3 [unfolded marker_at_iff]
    obtain wd sp l r where m: "b = wd @ sp @ l @ r" "foldAscii wd = foldAscii ''quy''"
      "list_all is_space sp" "foldAscii l = foldAscii roman" by (elim exE conjE)
    show ?thesis
      by (intro exI[of _ a] exI[of _ wd] exI[of _ sp] exI[of _ l] exI[of _ r])
         (simp add: ab(1) m)
  qed
next
  assume ?R
  then obtain a wd sp lit b where h: "w = a @ wd @ sp @ lit @ b" "list_all is_space sp"
    "(foldAscii wd = foldAscii ''q'' \<and> foldAscii lit = foldAscii q) \<or>
         (foldAscii wd = foldAscii ''quy'' \<and>
            (foldAscii lit = foldAscii q \<or> foldAscii lit = foldAscii roman))" by blast
  have mk: "marker_at word l (wd @ sp @ lit @ b)"
    if "foldAscii wd = foldAscii word" "foldAscii lit = foldAscii l" for word l
    unfolding marker_at_iff
    by (intro exI[of _ wd] exI[of _ sp] exI[of _ lit] exI[of _ b]) (simp add: that h(2))
  have "quarterRegex q roman (wd @ sp @ lit @ b)"
    using h(3) mk unfolding quarterRegex_def by blast
  moreover have "w = a @ (wd @ sp @ lit @ b)" using h(1) by simp
  ultimately show ?L unfolding regex_test_iff by blast
qed

lemma str_includes_set: "str_includes s k \<Longrightarrow> set k \<subseteq> set s"
  by (auto simp: str_includes_iff)

lemma far_window:
  "slice 334 774 (''quy 4 nam 2024'' @ replicate 500 (CHR ''.'') @ ''doanh thu thuan 8.235.606 ty dong'')
     = replicate 180 (CHR ''.'') @ ''doanh thu thuan 8.235.606 ty dong''"
  by (simp add: slice_def)

lemma far_example:
  "\<not> hasPeriodNearMatch
       (''quy 4 nam 2024'' @ replicate 500 (CHR ''.'') @ ''doanh thu thuan 8.235.606 ty dong'')
       514 (Some ''2024Q4'')"
proof
  assume "hasPeriodNearMatch
       (''quy 4 nam 2024'' @ replicate 500 (CHR ''.'') @ ''doanh thu thuan 8.235.606 ty dong'')
       514 (Some ''2024Q4'')"
  then have "str_includes
      (slice 334 774 (''quy 4 nam 2024'' @ replicate 500 (CHR ''.'') @ ''doanh thu thuan 8.235.606 ty dong''))
      (slice 0 4 ''2024Q4'')"
    unfolding hasPeriodNearMatch_def Let_def by simp
  then have "str_includes (replicate 180 (CHR ''.'') @ ''doanh thu thuan 8.235.606 ty dong'') ''2024''"
    unfolding far_window by (simp add: slice_def)
  then have "set ''2024'' \<subseteq> set (replicate 180 (CHR ''.'') @ ''doanh thu thuan 8.235.606 ty dong'')"
    by (rule str_includes_set)
  then show False by simp
qed

lemma period_window_iff:
  assumes "length year = 4"
    and "(q, roman) \<in> {(''1'', ''i''), (''2'', ''ii''), (''3'', ''iii''), (''4'', ''iv'')}"
  shows "hasPeriodNearMatch text index (Some (year @ CHR ''Q'' # q)) \<longleftrightarrow>
         (let window = slice (index - 180) (index + 260) text in
            (\<exists>a b. window = a @ year @ b) \<and>
            (\<exists>a wd sp lit b. window = a @ wd @ sp @ lit @ b \<and> list_all is_space sp \<and>
               ((foldAscii wd = ''q'' \<and> foldAscii lit = q) \<or>
                (foldAscii wd = ''quy'' \<and>
                   (foldAscii lit = q \<or> foldAscii lit = roman)))))"
proof -
  obtain y1 y2 y3 y4 where yr: "year = [y1, y2, y3, y4]"
    using assms(1) by (auto simp: length_Suc_conv numeral_eq_Suc)
  have y: "slice 0 4 (y1 # y2 # y3 # y4 # CHR ''Q'' # q) = [y1, y2, y3, y4]"
    by (simp add: slice_def)
  have rm: "quarterToRoman q = roman"
    using assms(2) by (auto simp: quarterToRoman_def)
  have fq: "foldAscii q = q" "foldAscii roman = roman"
    using assms(2) by (auto simp: foldAscii_def toLowerChar_def)
  have lit: "foldAscii ''q'' = ''q''" "foldAscii ''quy'' = ''quy''"
    by (simp_all add: foldAscii_def toLowerChar_def)
  have "hasPeriodNearMatch text index (Some (year @ CHR ''Q'' # q)) \<longleftrightarrow>
      regex_test (quarterRegex q roman) (slice (index - 180) (index + 260) text) \<and>
      str_includes (slice (index - 180) (index + 260) text) year"
    unfolding yr by (simp add: hasPeriodNearMatch_def Let_def y rm)
  then show ?thesis
    unfolding quarterRegex_iff str_includes_iff fq lit Let_def by blast
qed

lemma marker_needs_numeral:
  assumes "\<exists>a wd sp lit b. w = a @ wd @ sp @ lit @ b \<and> list_all is_space sp \<and>
               ((foldAscii wd = ''q'' \<and> foldAscii lit = q) \<or>
                (foldAscii wd = ''quy'' \<and> (foldAscii lit = q \<or> foldAscii lit = roman)))"
  shows "set q \<subseteq> set (foldAscii w) \<or> set roman \<subseteq> set (foldAscii w)"
proof -
  from assms obtain a wd sp lit b where h: "w = a @ wd @ sp @ lit @ b"
    "foldAscii lit = q \<or> foldAscii lit = roman"
    by blast
  have "set (foldAscii lit) \<subseteq> set (foldAscii w)" unfolding h(1) by auto
  then show ?thesis using h(2) by auto
qed

lemma near_example:
  "hasPeriodNearMatch ''ket qua quy 4 nam 2024 doanh thu thuan 8.235.606 ty dong'' 23 (Some ''2024Q4'')"
proof -
  have w: "slice (23 - 180) (23 + 260) ''ket qua quy 4 nam 2024 doanh thu thuan 8.235.606 ty dong''
      = ''ket qua quy 4 nam 2024 doanh thu thuan 8.235.606 ty dong''"
    by (simp add: slice_def)
  have yr: "\<exists>a b. ''ket qua quy 4 nam 2024 doanh thu thuan 8.235.606 ty dong'' = a @ ''2024'' @ b"
    by (rule exI [of _ "''ket qua quy 4 nam ''"],
        rule exI [of _ "'' doanh thu thuan 8.235.606 ty dong''"]) simp
  have mk: "\<exists>a wd sp lit b.
      ''ket qua quy 4 nam 2024 doanh thu thuan 8.235.606 ty dong'' = a @ wd @ sp @ lit @ b \<and>
      list_all is_space sp \<and>
      ((foldAscii wd = ''q'' \<and> foldAscii lit = ''4'') \<or>
       (foldAscii wd = ''quy'' \<and> (foldAscii lit = ''4'' \<or> foldAscii lit = ''iv'')))"
    by (rule exI [of _ "''ket qua ''"], rule exI [of _ "''quy''"], rule exI [of _ "'' ''"],
        rule exI [of _ "''4''"], rule exI [of _ "'' nam 2024 doanh thu thuan 8.235.606 ty dong''"])
       (simp add: foldAscii_def toLowerChar_def is_space_def)
  have p: "hasPeriodNearMatch ''ket qua quy 4 nam 2024 doanh thu thuan 8.235.606 ty dong'' 23
      (Some (''2024'' @ CHR ''Q'' # ''4'')) \<longleftrightarrow>
    (let window = slice (23 - 180) (23 + 260)
                    ''ket qua quy 4 nam 2024 doanh thu thuan 8.235.606 ty dong'' in
       (\<exists>a b. window = a @ ''2024'' @ b) \<and>
       (\<exists>a wd sp lit b. window = a @ wd @ sp @ lit @ b \<and> list_all is_space sp \<and>
          ((foldAscii wd = ''q'' \<and> foldAscii lit = ''4'') \<or>
           (foldAscii wd = ''quy'' \<and> (foldAscii lit = ''4'' \<or> foldAscii lit = ''iv'')))))"
    by (rule period_window_iff) simp_all
  have "hasPeriodNearMatch ''ket qua quy 4 nam 2024 doanh thu thuan 8.235.606 ty dong'' 23
      (Some (''2024'' @ CHR ''Q'' # ''4''))"
    using p [unfolded Let_def w, THEN iffD2, OF conjI, OF yr mk] .
  then show ?thesis by simp
qed

lemma roman_example:
  "hasPeriodNearMatch ''bao cao quy iv nam 2024 doanh thu thuan 8.235.606 ty'' 26 (Some ''2024Q4'')"
proof -
  have w: "slice (26 - 180) (26 + 260) ''bao cao quy iv nam 2024 doanh thu thuan 8.235.606 ty''
      = ''bao cao quy iv nam 2024 doanh thu thuan 8.235.606 ty''"
    by (simp add: slice_def)
  have yr: "\<exists>a b. ''bao cao quy iv nam 2024 doanh thu thuan 8.235.606 ty'' = a @ ''2024'' @ b"
    by (rule exI [of _ "''bao cao quy iv nam ''"],
        rule exI [of _ "'' doanh thu thuan 8.235.606 ty''"]) simp
  have mk: "\<exists>a wd sp lit b.
      ''bao cao quy iv nam 2024 doanh thu thuan 8.235.606 ty'' = a @ wd @ sp @ lit @ b \<and>
      list_all is_space sp \<and>
      ((foldAscii wd = ''q'' \<and> foldAscii lit = ''4'') \<or>
       (foldAscii wd = ''quy'' \<and> (foldAscii lit = ''4'' \<or> foldAscii lit = ''iv'')))"
    by (rule exI [of _ "''bao cao ''"], rule exI [of _ "''quy''"], rule exI [of _ "'' ''"],
        rule exI [of _ "''iv''"], rule exI [of _ "'' nam 2024 doanh thu thuan 8.235.606 ty''"])
       (simp add: foldAscii_def toLowerChar_def is_space_def)
  have p: "hasPeriodNearMatch ''bao cao quy iv nam 2024 doanh thu thuan 8.235.606 ty'' 26
      (Some (''2024'' @ CHR ''Q'' # ''4'')) \<longleftrightarrow>
    (let window = slice (26 - 180) (26 + 260)
                    ''bao cao quy iv nam 2024 doanh thu thuan 8.235.606 ty'' in
       (\<exists>a b. window = a @ ''2024'' @ b) \<and>
       (\<exists>a wd sp lit b. window = a @ wd @ sp @ lit @ b \<and> list_all is_space sp \<and>
          ((foldAscii wd = ''q'' \<and> foldAscii lit = ''4'') \<or>
           (foldAscii wd = ''quy'' \<and> (foldAscii lit = ''4'' \<or> foldAscii lit = ''iv'')))))"
    by (rule period_window_iff) simp_all
  have "hasPeriodNearMatch ''bao cao quy iv nam 2024 doanh thu thuan 8.235.606 ty'' 26
      (Some (''2024'' @ CHR ''Q'' # ''4''))"
    using p [unfolded Let_def w, THEN iffD2, OF conjI, OF yr mk] .
  then show ?thesis by simp
qed

lemma other_quarter_example:
  "\<not> hasPeriodNearMatch ''bao cao quy iii nam 2025 doanh thu thuan 8.235.606 ty'' 27
       (Some ''2025Q4'')"
proof
  assume "hasPeriodNearMatch ''bao cao quy iii nam 2025 doanh thu thuan 8.235.606 ty'' 27
       (Some ''2025Q4'')"
  then have a: "hasPeriodNearMatch ''bao cao quy iii nam 2025 doanh thu thuan 8.235.606 ty'' 27
       (Some (''2025'' @ CHR ''Q'' # ''4''))"
    by simp
  have p: "hasPeriodNearMatch ''bao cao quy iii nam 2025 doanh thu thuan 8.235.606 ty'' 27
      (Some (''2025'' @ CHR ''Q'' # ''4'')) \<longleftrightarrow>
    (let window = slice (27 - 180) (27 + 260)
                    ''bao cao quy iii nam 2025 doanh thu thuan 8.235.606 ty'' in
       (\<exists>a b. window = a @ ''2025'' @ b) \<and>
       (\<exists>a wd sp lit b. window = a @ wd @ sp @ lit @ b \<and> list_all is_space sp \<and>
          ((foldAscii wd = ''q'' \<and> foldAscii lit = ''4'') \<or>
           (foldAscii wd = ''quy'' \<and> (foldAscii lit = ''4'' \<or> foldAscii lit = ''iv'')))))"
    by (rule period_window_iff) simp_all
  have "set ''4'' \<subseteq> set (foldAscii
         (slice (27 - 180) (27 + 260) ''bao cao quy iii nam 2025 doanh thu thuan 8.235.606 ty'')) \<or>
       set ''iv'' \<subseteq> set (foldAscii
         (slice (27 - 180) (27 + 260) ''bao cao quy iii nam 2025 doanh thu thuan 8.235.606 ty''))"
    using p [unfolded Let_def, THEN iffD1, OF a, THEN conjunct2] by (rule marker_needs_numeral)
  then show False by (simp add: slice_def foldAscii_def toLowerChar_def)
qed

lemma no_quarter_example:
  "\<not> hasPeriodNearMatch ''bao cao quy nam 2025 doanh thu thuan 8.235.606 ty'' 23
       (Some ''2025Q4'')"
proof
  assume "hasPeriodNearMatch ''bao cao quy nam 2025 doanh thu thuan 8.235.606 ty'' 23
       (Some ''2025Q4'')"
  then have a: "hasPeriodNearMatch ''bao cao quy nam 2025 doanh thu thuan 8.235.606 ty'' 23
       (Some (''2025'' @ CHR ''Q'' # ''4''))"
    by simp
  have p: "hasPeriodNearMatch ''bao cao quy nam 2025 doanh thu thuan 8.235.606 ty'' 23
      (Some (''2025'' @ CHR ''Q'' # ''4'')) \<longleftrightarrow>
    (let window = slice (23 - 180) (23 + 260)
                    ''bao cao quy nam 2025 doanh thu thuan 8.235.606 ty'' in
       (\<exists>a b. window = a @ ''2025'' @ b) \<and>
       (\<exists>a wd sp lit b. window = a @ wd @ sp @ lit @ b \<and> list_all is_space sp \<and>
          ((foldAscii wd = ''q'' \<and> foldAscii lit = ''4'') \<or>
           (foldAscii wd = ''quy'' \<and> (foldAscii lit = ''4'' \<or> foldAscii lit = ''iv'')))))"
    by (rule period_window_iff) simp_all
  have "set ''4'' \<subseteq> set (foldAscii
         (slice (23 - 180) (23 + 260) ''bao cao quy nam 2025 doanh thu thuan 8.235.606 ty'')) \<or>
       set ''iv'' \<subseteq> set (foldAscii
         (slice (23 - 180) (23 + 260) ''bao cao quy nam 2025 doanh thu thuan 8.235.606 ty''))"
    using p [unfolded Let_def, THEN iffD1, OF a, THEN conjunct2] by (rule marker_needs_numeral)
  then show False by (simp add: slice_def foldAscii_def toLowerChar_def)
qed

text \<open>
  Claim C6. For a period \<^verbatim>\<open>YYYYQn\<close> the check accepts a match at \<open>index\<close> exactly when the
  window of the folded text from 180 characters before \<open>index\<close> to 260 characters after it
  contains the year and a quarter marker: \<^verbatim>\<open>q\<close> or \<^verbatim>\<open>quy\<close>, any white space, then the
  digit \<open>n\<close>, or \<^verbatim>\<open>quy\<close>, any white space, then the Roman form of \<open>n\<close>, which is \<^verbatim>\<open>i\<close>,
  \<^verbatim>\<open>ii\<close>, \<^verbatim>\<open>iii\<close> or \<^verbatim>\<open>iv\<close>, case ignored. The window holds the characters at the
  positions \<open>index - 180\<close> up to, not including, \<open>index + 260\<close>, cut at both ends of the
  text. A match next to \<^verbatim>\<open>quy 4 nam 2024\<close> or to \<^verbatim>\<open>quy iv nam 2024\<close> passes for
  \<^verbatim>\<open>2024Q4\<close>, and the same match 500 characters after the marker fails; a match next to
  \<^verbatim>\<open>quy iii nam 2025\<close> or to \<^verbatim>\<open>quy nam 2025\<close> fails for \<^verbatim>\<open>2025Q4\<close>.
\<close>

theorem hasPeriodNearMatch_window:
  "(length year = 4 \<and> list_all is_digit year \<and>
    (q, roman) \<in> {(''1'', ''i''), (''2'', ''ii''), (''3'', ''iii''), (''4'', ''iv'')} \<longrightarrow>
      (hasPeriodNearMatch text index (Some (year @ CHR ''Q'' # q)) \<longleftrightarrow>
         (let window = slice (index - 180) (index + 260) text in
            (\<exists>a b. window = a @ year @ b) \<and>
            (\<exists>a wd sp lit b. window = a @ wd @ sp @ lit @ b \<and> list_all is_space sp \<and>
               ((foldAscii wd = ''q'' \<and> foldAscii lit = q) \<or>
                (foldAscii wd = ''quy'' \<and>
                   (foldAscii lit = q \<or> foldAscii lit = roman)))))))
   \<and> slice (index - 180) (index + 260) text
       = map (\<lambda>i. text ! i) [index - 180 ..< min (index + 260) (length text)]
   \<and> hasPeriodNearMatch ''ket qua quy 4 nam 2024 doanh thu thuan 8.235.606 ty dong'' 23
        (Some ''2024Q4'')
   \<and> \<not> hasPeriodNearMatch
         (''quy 4 nam 2024'' @ replicate 500 (CHR ''.'') @ ''doanh thu thuan 8.235.606 ty dong'')
         514 (Some ''2024Q4'')
   \<and> hasPeriodNearMatch ''bao cao quy iv nam 2024 doanh thu thuan 8.235.606 ty'' 26
        (Some ''2024Q4'')
   \<and> \<not> hasPeriodNearMatch ''bao cao quy iii nam 2025 doanh thu thuan 8.235.606 ty'' 27
        (Some ''2025Q4'')
   \<and> \<not> hasPeriodNearMatch ''bao cao quy nam 2025 doanh thu thuan 8.235.606 ty'' 23
        (Some ''2025Q4'')"
proof -
  have main: "length year = 4 \<and> list_all is_digit year \<and>
    (q, roman) \<in> {(''1'', ''i''), (''2'', ''ii''), (''3'', ''iii''), (''4'', ''iv'')} \<longrightarrow>
      (hasPeriodNearMatch text index (Some (year @ CHR ''Q'' # q)) \<longleftrightarrow>
         (let window = slice (index - 180) (index + 260) text in
            (\<exists>a b. window = a @ year @ b) \<and>
            (\<exists>a wd sp lit b. window = a @ wd @ sp @ lit @ b \<and> list_all is_space sp \<and>
               ((foldAscii wd = ''q'' \<and> foldAscii lit = q) \<or>
                (foldAscii wd = ''quy'' \<and>
                   (foldAscii lit = q \<or> foldAscii lit = roman))))))"
  proof
    assume h: "length year = 4 \<and> list_all is_digit year \<and>
      (q, roman) \<in> {(''1'', ''i''), (''2'', ''ii''), (''3'', ''iii''), (''4'', ''iv'')}"
    show "hasPeriodNearMatch text index (Some (year @ CHR ''Q'' # q)) \<longleftrightarrow>
         (let window = slice (index - 180) (index + 260) text in
            (\<exists>a b. window = a @ year @ b) \<and>
            (\<exists>a wd sp lit b. window = a @ wd @ sp @ lit @ b \<and> list_all is_space sp \<and>
               ((foldAscii wd = ''q'' \<and> foldAscii lit = q) \<or>
                (foldAscii wd = ''quy'' \<and>
                   (foldAscii lit = q \<or> foldAscii lit = roman)))))"
      by (rule period_window_iff) (use h in blast)+
  qed
  show ?thesis
    apply (intro conjI)
    apply (rule main)
    apply (rule slice_nth)
    apply (rule near_example)
    apply (rule far_example)
    apply (rule roman_example)
    apply (rule other_quarter_example)
    apply (rule no_quarter_example)
    done
qed

text \<open>
  The theorem at the period \<^verbatim>\<open>2024Q4\<close> and a text whose only quarter marker is the Roman
  one, in capitals and after two blanks: the window is the whole text, it holds the year,
  and \<^verbatim>\<open>QUY\<close>, the blanks and \<^verbatim>\<open>IV\<close> make the marker, so the match is accepted.
\<close>

theorem hasPeriodNearMatch_window_witness:
  "length ''2024'' = 4 \<and> list_all is_digit ''2024'' \<and>
   slice (21 - 180) (21 + 260) ''bao cao QUY  IV/2024: doanh thu thuan 8.235.606 ty''
     = ''bao cao QUY  IV/2024: doanh thu thuan 8.235.606 ty'' \<and>
   foldAscii ''QUY'' = ''quy'' \<and> foldAscii ''IV'' = ''iv'' \<and> list_all is_space ''  '' \<and>
   hasPeriodNearMatch ''bao cao QUY  IV/2024: doanh thu thuan 8.235.606 ty'' 21 (Some ''2024Q4'')"
proof -
  have h: "length ''2024'' = 4 \<and> list_all is_digit ''2024'' \<and>
    (''4'', ''iv'') \<in> {(''1'', ''i''), (''2'', ''ii''), (''3'', ''iii''), (''4'', ''iv'')}"
    by (simp add: is_digit_def)
  have w: "slice (21 - 180) (21 + 260) ''bao cao QUY  IV/2024: doanh thu thuan 8.235.606 ty''
     = ''bao cao QUY  IV/2024: doanh thu thuan 8.235.606 ty''"
    by (simp add: slice_def)
  have f: "foldAscii ''QUY'' = ''quy''" "foldAscii ''IV'' = ''iv''" "list_all is_space ''  ''"
    by (simp_all add: foldAscii_def toLowerChar_def is_space_def)
  have yr: "\<exists>a b. ''bao cao QUY  IV/2024: doanh thu thuan 8.235.606 ty'' = a @ ''2024'' @ b"
    by (rule exI [of _ "''bao cao QUY  IV/''"], rule exI [of _ "'': doanh thu thuan 8.235.606 ty''"])
       simp
  have mk: "\<exists>a wd sp lit b.
      ''bao cao QUY  IV/2024: doanh thu thuan 8.235.606 ty'' = a @ wd @ sp @ lit @ b \<and>
      list_all is_space sp \<and>
      ((foldAscii wd = ''q'' \<and> foldAscii lit = ''4'') \<or>
       (foldAscii wd = ''quy'' \<and> (foldAscii lit = ''4'' \<or> foldAscii lit = ''iv'')))"
    by (rule exI [of _ "''bao cao ''"], rule exI [of _ "''QUY''"], rule exI [of _ "''  ''"],
        rule exI [of _ "''IV''"], rule exI [of _ "''/2024: doanh thu thuan 8.235.606 ty''"])
       (simp add: f is_space_def)
  note r = hasPeriodNearMatch_window [of "''2024''" "''4''" "''iv''"
      "''bao cao QUY  IV/2024: doanh thu thuan 8.235.606 ty''" 21,
      THEN conjunct1, THEN mp, OF h, unfolded Let_def w]
  have "hasPeriodNearMatch ''bao cao QUY  IV/2024: doanh thu thuan 8.235.606 ty'' 21
      (Some (''2024'' @ CHR ''Q'' # ''4''))"
    using r [THEN iffD2, OF conjI, OF yr mk] .
  then have a: "hasPeriodNearMatch ''bao cao QUY  IV/2024: doanh thu thuan 8.235.606 ty'' 21
      (Some ''2024Q4'')"
    by simp
  show ?thesis using h w f a by (intro conjI) simp_all
qed

text \<open>
  Claim C10. Without a period (\<^verbatim>\<open>null\<close> or the empty string) \<^verbatim>\<open>hasPeriodNearMatch\<close> is true
  for every text and index. Hence with \<^verbatim>\<open>period = null\<close> and \<^verbatim>\<open>strictPeriod\<close> left at its
  default \<^verbatim>\<open>true\<close> a match is accepted or rejected exactly as with the check switched
  off, whatever text surrounds it, and so is the result of \<^verbatim>\<open>extractValueFromText\<close>. The
  explicit entries of \<^verbatim>\<open>hydrateSeries\<close> are extracted this way: a turn of that loop behaves
  as if the check were switched off.
\<close>

theorem no_period_no_proximity_check:
  "hasPeriodNearMatch foldedText index None \<and> hasPeriodNearMatch foldedText index (Some []) \<and>
   acceptMatch foldedText unitKind minValue maxValue None True m
     = acceptMatch otherText unitKind minValue maxValue period False m \<and>
   extractValueFromText eng foldedText patterns unitKind minValue maxValue None True
     = extractValueFromText eng foldedText patterns unitKind minValue maxValue period False \<and>
   explicitEntry e unitKind minValue maxValue ent st =
     (if e_period ent \<notin> set PERIODS_Q then Some st
      else if e_url ent = [] \<or> e_pattern ent = [] then Some st
      else
        (case fetchDocument e (e_url ent) (fst st) of
           (Throws err, w1) \<Rightarrow> Some (w1, snd st)
         | (Returns doc, w1) \<Rightarrow>
             (case extractValueFromText (regex e) (doc_folded doc) [e_pattern ent] unitKind
                     minValue maxValue (Some (e_period ent)) False of
                None \<Rightarrow> None
              | Some (Throws err) \<Rightarrow> Some (w1, snd st)
              | Some (Returns v) \<Rightarrow> Some (w1, setValue (e_period ent) v (snd st)))))"
proof -
  have a: "hasPeriodNearMatch t i None" "hasPeriodNearMatch t i (Some [])" for t i
    by (simp_all add: hasPeriodNearMatch_def)
  have b: "acceptMatch t unitKind minValue maxValue None True
     = acceptMatch t' unitKind minValue maxValue p False" for t t' p
    by (rule ext) (simp add: acceptMatch_def a Let_def split: option.split)
  have c: "extractValueFromText g t ps unitKind minValue maxValue None True
     = extractValueFromText g t ps unitKind minValue maxValue p False" for g t ps p
    unfolding extractValueFromText_def b [of t t p] ..
  show ?thesis
    apply (intro conjI)
        apply (rule a)
       apply (rule a)
      apply (simp add: b [of foldedText otherText period])
     apply (rule c)
    unfolding explicitEntry_def c [of _ _ _ "Some (e_period ent)"]
    apply (rule refl)
    done
qed

section \<open>Properties of the document cache\<close>

lemma fetchDocument_hit: "cache w url = Some d \<Longrightarrow> fetchDocument e url w = (Returns d, w)"
  by (simp add: fetchDocument_def)

lemma fetchDocument_miss:
  assumes "cache w url = None"
  shows "requests (snd (fetchDocument e url w)) = requests w @ [url]"
    and "completes e (length (requests w)) url \<Longrightarrow>
           \<exists>d. fst (fetchDocument e url w) = Returns d \<and>
               cache (snd (fetchDocument e url w)) = (cache w)(url \<mapsto> d)"
    and "\<not> completes e (length (requests w)) url \<Longrightarrow>
           (\<exists>err. fst (fetchDocument e url w) = Throws err) \<and>
           cache (snd (fetchDocument e url w)) = cache w"
  using assms
  by (auto simp: fetchDocument_def fetchBuffer_def completes_def Let_def
           split: outcome.splits prod.splits)

lemma fetchDocument_cache_mono:
  "cache w u = Some d \<Longrightarrow> cache (snd (fetchDocument e url w)) u = Some d"
  by (auto simp: fetchDocument_def fetchBuffer_def Let_def split: option.splits outcome.splits prod.splits)

lemma fetchDocument_no_request:
  "cache w u = Some d \<Longrightarrow>
     count_list (requests (snd (fetchDocument e url w))) u = count_list (requests w) u"
  by (auto simp: fetchDocument_def fetchBuffer_def Let_def split: option.splits outcome.splits prod.splits)

lemma fetchAll_cache_mono:
  "cache w u = Some d \<Longrightarrow>
     cache (fetchAll e urls w) u = Some d \<and>
     count_list (requests (fetchAll e urls w)) u = count_list (requests w) u"
proof (induction urls arbitrary: w)
  case Nil
  then show ?case by simp
next
  case (Cons url urls)
  have 1: "cache (snd (fetchDocument e url w)) u = Some d"
    using Cons.prems by (rule fetchDocument_cache_mono)
  have 2: "count_list (requests (snd (fetchDocument e url w))) u = count_list (requests w) u"
    using Cons.prems by (rule fetchDocument_no_request)
  show ?case using Cons.IH [OF 1] 2 by simp
qed

lemma completed_snoc:
  "completed e (reqs @ [url]) u =
     completed e reqs u @ (if url = u \<and> completes e (length reqs) u then [length reqs] else [])"
proof -
  have "filter (\<lambda>n. (reqs @ [url]) ! n = u \<and> completes e n u) [0 ..< length reqs]
      = filter (\<lambda>n. reqs ! n = u \<and> completes e n u) [0 ..< length reqs]"
    by (rule filter_cong) (auto simp: nth_append)
  then show ?thesis by (simp add: completed_def)
qed

lemma cache_inv_step:
  assumes "\<forall>u. length (completed e (requests w) u) = (if cache w u = None then 0 else 1)"
  shows "\<forall>u. length (completed e (requests (snd (fetchDocument e url w))) u)
            = (if cache (snd (fetchDocument e url w)) u = None then 0 else 1)"
proof (cases "cache w url")
  case (Some d)
  then show ?thesis using assms by (simp add: fetchDocument_hit)
next
  case None
  note m = fetchDocument_miss [OF None, of e]
  show ?thesis
  proof (cases "completes e (length (requests w)) url")
    case True
    then obtain d where d: "cache (snd (fetchDocument e url w)) = (cache w)(url \<mapsto> d)"
      using m(2) by blast
    show ?thesis
      unfolding m(1) d completed_snoc
      using assms None True by auto
  next
    case False
    then have c: "cache (snd (fetchDocument e url w)) = cache w" using m(3) by blast
    show ?thesis
      unfolding m(1) c completed_snoc
      using assms None False by auto
  qed
qed

lemma cache_inv_fetchAll:
  "\<forall>u. length (completed e (requests w) u) = (if cache w u = None then 0 else 1) \<Longrightarrow>
   \<forall>u. length (completed e (requests (fetchAll e urls w)) u)
         = (if cache (fetchAll e urls w) u = None then 0 else 1)"
proof (induction urls arbitrary: w)
  case Nil
  then show ?case by simp
next
  case (Cons url urls)
  show ?case using Cons.IH [OF cache_inv_step [OF Cons.prems]] by simp
qed

lemma cache_inv_empty:
  "\<forall>u. length (completed e (requests emptyWorld) u)
        = (if cache emptyWorld u = None then 0 else 1)"
  by (simp add: completed_def emptyWorld_def)


lemma fetchDocument_download_fails:
  "cache w url = None \<Longrightarrow> net e (length (requests w)) url = Throws err \<Longrightarrow>
     fetchDocument e url w = (Throws err, w\<lparr>requests := requests w @ [url]\<rparr>)"
  by (simp add: fetchDocument_def fetchBuffer_def)

lemma fetchDocument_parse_fails:
  "cache w url = None \<Longrightarrow> net e (length (requests w)) url = Returns buf \<Longrightarrow> isPdf url \<Longrightarrow>
   pdf_getText e buf = Throws err \<Longrightarrow>
     fetchDocument e url w = (Throws err, w\<lparr>requests := requests w @ [url]\<rparr>)"
  by (simp add: fetchDocument_def fetchBuffer_def)

lemma fetchDocument_succeeds:
  assumes "cache w url = None" "net e (length (requests w)) url = Returns buf"
    and "isPdf url \<longrightarrow> (\<exists>txt. pdf_getText e buf = Returns txt)"
  shows "\<exists>doc. fetchDocument e url w
             = (Returns doc, w\<lparr>requests := requests w @ [url], cache := (cache w)(url \<mapsto> doc)\<rparr>) \<and>
           doc_buffer doc = buf \<and> doc_isPdf doc = isPdf url"
proof (cases "isPdf url")
  case True
  then obtain tx where "pdf_getText e buf = Returns tx" using assms(3) by blast
  then show ?thesis
    using assms(1,2) True by (simp add: fetchDocument_def fetchBuffer_def Let_def mkDocument_def)
next
  case False
  then show ?thesis
    using assms(1,2) by (simp add: fetchDocument_def fetchBuffer_def Let_def mkDocument_def)
qed

text \<open>
  Claim C7. A call of \<^verbatim>\<open>fetchDocument\<close> for a cached URL returns the cached document and
  leaves the run as it is: nothing is requested and nothing is parsed. A call that misses
  the cache and succeeds stores exactly its result under the URL, after one request, and
  the next call for that URL returns the same document from the cache. A call that misses
  the cache sends one request; when the download fails, or when the file is a PDF and
  reading its text fails, the call throws that very error and the cache is as it was; in
  every other case it returns a document and stores it. Through any further calls an entry
  of the cache stays what it is and its URL is never requested again; and in a run that
  starts with an empty cache at most one request per URL is carried through to a stored
  document, a request being carried through exactly when its call returns a document.
\<close>

theorem fetchDocument_cached_once:
  "(cache w url = Some d \<longrightarrow> fetchDocument e url w = (Returns d, w)) \<and>
   (cache w url = None \<and> fetchDocument e url w = (Returns d, w') \<longrightarrow>
      cache w' = (cache w)(url \<mapsto> d) \<and> requests w' = requests w @ [url] \<and>
      fetchDocument e url w' = (Returns d, w')) \<and>
   (fetchDocument e url w = (Throws err, w') \<longrightarrow> cache w' = cache w) \<and>
   (cache w url = None \<and> net e (length (requests w)) url = Throws err \<longrightarrow>
      fetchDocument e url w = (Throws err, w\<lparr>requests := requests w @ [url]\<rparr>)) \<and>
   (cache w url = None \<and> net e (length (requests w)) url = Returns buf \<and> isPdf url \<and>
    pdf_getText e buf = Throws err \<longrightarrow>
      fetchDocument e url w = (Throws err, w\<lparr>requests := requests w @ [url]\<rparr>)) \<and>
   (cache w url = None \<and> net e (length (requests w)) url = Returns buf \<and>
    (isPdf url \<longrightarrow> (\<exists>txt. pdf_getText e buf = Returns txt)) \<longrightarrow>
      (\<exists>doc. fetchDocument e url w
          = (Returns doc, w\<lparr>requests := requests w @ [url], cache := (cache w)(url \<mapsto> doc)\<rparr>) \<and>
        doc_buffer doc = buf \<and> doc_isPdf doc = isPdf url)) \<and>
   (cache w u = Some d \<longrightarrow>
      cache (fetchAll e urls w) u = Some d \<and>
      count_list (requests (fetchAll e urls w)) u = count_list (requests w) u) \<and>
   length (completed e (requests (fetchAll e urls emptyWorld)) u) \<le> 1 \<and>
   (n \<in> set (completed e reqs u) \<longleftrightarrow> n < length reqs \<and> reqs ! n = u \<and> completes e n u) \<and>
   (cache w url = None \<longrightarrow>
      (completes e (length (requests w)) url \<longleftrightarrow>
         (\<exists>doc. fst (fetchDocument e url w) = Returns doc)))"
proof -
  have a: "cache w url = Some d \<longrightarrow> fetchDocument e url w = (Returns d, w)"
    by (simp add: fetchDocument_hit)
  have b: "cache w' = (cache w)(url \<mapsto> d) \<and> requests w' = requests w @ [url] \<and>
      fetchDocument e url w' = (Returns d, w')"
    if h: "cache w url = None" "fetchDocument e url w = (Returns d, w')"
  proof -
    have r: "requests w' = requests w @ [url]"
      using fetchDocument_miss(1) [OF h(1), of e] h(2) by simp
    have "completes e (length (requests w)) url"
      using fetchDocument_miss(3) [OF h(1), of e] h(2) by auto
    then have c: "cache w' = (cache w)(url \<mapsto> d)"
      using fetchDocument_miss(2) [OF h(1), of e] h(2) by auto
    then have "cache w' url = Some d" by simp
    then have "fetchDocument e url w' = (Returns d, w')" by (rule fetchDocument_hit)
    then show ?thesis using r c by simp
  qed
  have c: "cache w' = cache w" if h: "fetchDocument e url w = (Throws err, w')"
  proof (cases "cache w url")
    case None
    have "\<not> completes e (length (requests w)) url"
      using fetchDocument_miss(2) [OF None, of e] h by auto
    then show ?thesis using fetchDocument_miss(3) [OF None, of e] h by auto
  next
    case (Some d')
    then show ?thesis using h by (simp add: fetchDocument_hit)
  qed
  have f1: "cache w url = None \<and> net e (length (requests w)) url = Throws err \<longrightarrow>
      fetchDocument e url w = (Throws err, w\<lparr>requests := requests w @ [url]\<rparr>)"
    using fetchDocument_download_fails [of w url e err] by simp
  have f2: "cache w url = None \<and> net e (length (requests w)) url = Returns buf \<and> isPdf url \<and>
    pdf_getText e buf = Throws err \<longrightarrow>
      fetchDocument e url w = (Throws err, w\<lparr>requests := requests w @ [url]\<rparr>)"
    using fetchDocument_parse_fails [of w url e buf err] by simp
  have f3: "cache w url = None \<and> net e (length (requests w)) url = Returns buf \<and>
    (isPdf url \<longrightarrow> (\<exists>txt. pdf_getText e buf = Returns txt)) \<longrightarrow>
      (\<exists>doc. fetchDocument e url w
          = (Returns doc, w\<lparr>requests := requests w @ [url], cache := (cache w)(url \<mapsto> doc)\<rparr>) \<and>
        doc_buffer doc = buf \<and> doc_isPdf doc = isPdf url)"
  proof
    assume h: "cache w url = None \<and> net e (length (requests w)) url = Returns buf \<and>
      (isPdf url \<longrightarrow> (\<exists>txt. pdf_getText e buf = Returns txt))"
    show "\<exists>doc. fetchDocument e url w
          = (Returns doc, w\<lparr>requests := requests w @ [url], cache := (cache w)(url \<mapsto> doc)\<rparr>) \<and>
        doc_buffer doc = buf \<and> doc_isPdf doc = isPdf url"
      by (rule fetchDocument_succeeds) (use h in blast)+
  qed
  have d: "cache w u = Some d \<longrightarrow>
      cache (fetchAll e urls w) u = Some d \<and>
      count_list (requests (fetchAll e urls w)) u = count_list (requests w) u"
    using fetchAll_cache_mono by blast
  have "length (completed e (requests (fetchAll e urls emptyWorld)) u)
      = (if cache (fetchAll e urls emptyWorld) u = None then 0 else 1)"
    using cache_inv_fetchAll [OF cache_inv_empty] by blast
  then have f: "length (completed e (requests (fetchAll e urls emptyWorld)) u) \<le> 1" by simp
  have g: "n \<in> set (completed e reqs u) \<longleftrightarrow> n < length reqs \<and> reqs ! n = u \<and> completes e n u"
    by (auto simp: completed_def)
  have k: "cache w url = None \<longrightarrow>
      (completes e (length (requests w)) url \<longleftrightarrow>
         (\<exists>doc. fst (fetchDocument e url w) = Returns doc))"
  proof
    assume n: "cache w url = None"
    show "completes e (length (requests w)) url \<longleftrightarrow>
         (\<exists>doc. fst (fetchDocument e url w) = Returns doc)"
    proof (cases "completes e (length (requests w)) url")
      case True
      then show ?thesis using fetchDocument_miss(2) [OF n, of e] by blast
    next
      case False
      then obtain err' where "fst (fetchDocument e url w) = Throws err'"
        using fetchDocument_miss(3) [OF n, of e] by blast
      then show ?thesis using False by simp
    qed
  qed
  show ?thesis
    apply (intro conjI)
    using a apply blast
    using b apply blast
    using c apply blast
    apply (rule f1)
    apply (rule f2)
    apply (rule f3)
    using d apply blast
    apply (rule f)
    apply (rule g)
    apply (rule k)
    done
qed

lemma demo_docB:
  "mkDocument (strip_tags (strip_block ''style'' ''</style>'' (strip_block ''script'' ''</script>'' htmlB)))
     htmlB False htmlB = docB"
  by code_simp

lemma demo_docA:
  "mkDocument (strip_tags (strip_block ''style'' ''</style>'' (strip_block ''script'' ''</script>'' htmlA)))
     htmlA False htmlA = docA"
  by code_simp

lemma demo_not_pdf: "\<not> isPdf urlA" "\<not> isPdf urlB"
  by (simp_all add: isPdf_def toLowerCase_def toLowerChar_def urlA_def urlB_def)

lemma demo_urls: "urlA \<noteq> urlB" "urlB \<noteq> urlA"
  by (simp_all add: urlA_def urlB_def)

lemma demo_fetch_A: "fetchDocument demo_env urlA emptyWorld = (Returns docA, world1)"
  by (simp add: fetchDocument_def fetchBuffer_def demo_env_def demo_net_def emptyWorld_def
        world1_def demo_urls demo_not_pdf demo_docA Let_def)

lemma demo_fetch_B_fails:
  "fetchDocument demo_env urlB world1
     = (Throws (Error ''Fetch failed 503 Service Unavailable''), world2)"
  by (simp add: fetchDocument_def fetchBuffer_def demo_env_def demo_net_def world1_def world2_def
        demo_urls)

lemma demo_fetch_B: "fetchDocument demo_env urlB world2 = (Returns docB, world3)"
  by (simp add: fetchDocument_def fetchBuffer_def demo_env_def demo_net_def world2_def world3_def
        demo_urls demo_not_pdf demo_docB Let_def)

lemma demo_pdf: "isPdf urlP" "net demo_env_pdf n url = Returns ''PDF-1.7 damaged''"
  "pdf_getText demo_env_pdf buf = Throws (Error ''Invalid PDF structure'')"
  by (simp_all add: isPdf_def toLowerCase_def toLowerChar_def urlP_def demo_env_pdf_def
        demo_env_def)

lemma demo_net_B:
  "net demo_env (length (requests world1)) urlB
     = Throws (Error ''Fetch failed 503 Service Unavailable'')"
  "net demo_env (length (requests world2)) urlB = Returns htmlB"
  by (simp_all add: demo_env_def demo_net_def world1_def world2_def demo_urls)

text \<open>
  The theorem on the example: after \<open>urlA\<close> is fetched the request to \<open>urlB\<close> fails, the
  call throws the error of the download and caches nothing, the next one succeeds, a
  further call is answered from the cache, and three more calls leave the entry and the
  number of requests to \<open>urlB\<close> unchanged. On the site with the damaged file the download of
  \<open>urlP\<close> succeeds, reading its text fails, and the call throws the error of the reader.
\<close>

theorem fetchDocument_cached_once_witness:
  "cache world1 urlB = None \<and>
   net demo_env (length (requests world1)) urlB
     = Throws (Error ''Fetch failed 503 Service Unavailable'') \<and>
   fetchDocument demo_env urlB world1
     = (Throws (Error ''Fetch failed 503 Service Unavailable''), world2) \<and>
   cache world2 = cache world1 \<and>
   cache world2 urlB = None \<and>
   net demo_env (length (requests world2)) urlB = Returns htmlB \<and>
   (\<exists>doc. fetchDocument demo_env urlB world2
        = (Returns doc, world2\<lparr>requests := requests world2 @ [urlB],
                                cache := (cache world2)(urlB \<mapsto> doc)\<rparr>) \<and>
      doc_buffer doc = htmlB \<and> doc_isPdf doc = isPdf urlB) \<and>
   fetchDocument demo_env urlB world2 = (Returns docB, world3) \<and>
   cache world3 = (cache world2)(urlB \<mapsto> docB) \<and>
   requests world3 = requests world2 @ [urlB] \<and>
   fetchDocument demo_env urlB world3 = (Returns docB, world3) \<and>
   cache world3 urlB = Some docB \<and>
   cache (fetchAll demo_env [urlA, urlB, urlA] world3) urlB = Some docB \<and>
   count_list (requests (fetchAll demo_env [urlA, urlB, urlA] world3)) urlB
     = count_list (requests world3) urlB \<and>
   \<not> completes demo_env (length (requests world1)) urlB \<and>
   completes demo_env (length (requests world2)) urlB \<and>
   isPdf urlP \<and>
   net demo_env_pdf (length (requests emptyWorld)) urlP = Returns ''PDF-1.7 damaged'' \<and>
   pdf_getText demo_env_pdf ''PDF-1.7 damaged'' = Throws (Error ''Invalid PDF structure'') \<and>
   fetchDocument demo_env_pdf urlP emptyWorld
     = (Throws (Error ''Invalid PDF structure''), \<lparr>cache = Map.empty, requests = [urlP]\<rparr>)"
proof -
  note t = fetchDocument_cached_once [where e = demo_env and url = urlB and d = docB]
  have n1: "cache world1 urlB = None" by (simp add: world1_def demo_urls)
  have w12: "world1\<lparr>requests := requests world1 @ [urlB]\<rparr> = world2"
    by (simp add: world1_def world2_def)
  have "fetchDocument demo_env urlB world1
     = (Throws (Error ''Fetch failed 503 Service Unavailable''),
        world1\<lparr>requests := requests world1 @ [urlB]\<rparr>)"
    using t [where w = world1 and err = "Error ''Fetch failed 503 Service Unavailable''",
             THEN conjunct2, THEN conjunct2, THEN conjunct2, THEN conjunct1]
      n1 demo_net_B(1)
    by simp
  then have f1: "fetchDocument demo_env urlB world1
     = (Throws (Error ''Fetch failed 503 Service Unavailable''), world2)"
    by (simp only: w12)
  have c1: "cache world2 = cache world1"
    using t [where w = world1 and err = "Error ''Fetch failed 503 Service Unavailable''"
               and w' = world2, THEN conjunct2, THEN conjunct2, THEN conjunct1] f1
    by simp
  have n: "cache world2 urlB = None" by (simp add: world2_def demo_urls)
  have ex: "\<exists>doc. fetchDocument demo_env urlB world2
        = (Returns doc, world2\<lparr>requests := requests world2 @ [urlB],
                                cache := (cache world2)(urlB \<mapsto> doc)\<rparr>) \<and>
      doc_buffer doc = htmlB \<and> doc_isPdf doc = isPdf urlB"
    using t [where w = world2 and buf = htmlB,
             THEN conjunct2, THEN conjunct2, THEN conjunct2, THEN conjunct2, THEN conjunct2,
             THEN conjunct1]
      n demo_net_B(2) demo_not_pdf(2)
    by simp
  have f2: "fetchDocument demo_env urlB world2 = (Returns docB, world3)"
    by (rule demo_fetch_B)
  have f3: "cache world3 = (cache world2)(urlB \<mapsto> docB) \<and>
      requests world3 = requests world2 @ [urlB] \<and>
      fetchDocument demo_env urlB world3 = (Returns docB, world3)"
    using t [where w = world2 and w' = world3, THEN conjunct2, THEN conjunct1] n f2
    by simp
  have s: "cache world3 urlB = Some docB" by (simp add: world3_def)
  have m: "cache (fetchAll demo_env [urlA, urlB, urlA] world3) urlB = Some docB \<and>
     count_list (requests (fetchAll demo_env [urlA, urlB, urlA] world3)) urlB
       = count_list (requests world3) urlB"
    using t [where w = world3 and u = urlB and urls = "[urlA, urlB, urlA]",
             THEN conjunct2, THEN conjunct2, THEN conjunct2, THEN conjunct2, THEN conjunct2,
             THEN conjunct2, THEN conjunct1] s
    by simp
  note last = conjunct2 [THEN conjunct2, THEN conjunct2, THEN conjunct2, THEN conjunct2,
      THEN conjunct2, THEN conjunct2, THEN conjunct2, THEN conjunct2]
  have k1: "\<not> completes demo_env (length (requests world1)) urlB"
    using t [where w = world1, THEN last, THEN mp, OF n1] f1 by simp
  have k2: "completes demo_env (length (requests world2)) urlB"
    using t [where w = world2, THEN last, THEN mp, OF n] f2 by simp
  have p: "isPdf urlP"
    "net demo_env_pdf (length (requests emptyWorld)) urlP = Returns ''PDF-1.7 damaged''"
    "pdf_getText demo_env_pdf ''PDF-1.7 damaged'' = Throws (Error ''Invalid PDF structure'')"
    by (rule demo_pdf)+
  have ne: "cache emptyWorld urlP = None" by (simp add: emptyWorld_def)
  have "fetchDocument demo_env_pdf urlP emptyWorld
     = (Throws (Error ''Invalid PDF structure''),
        emptyWorld\<lparr>requests := requests emptyWorld @ [urlP]\<rparr>)"
    using fetchDocument_cached_once [where e = demo_env_pdf and url = urlP and w = emptyWorld
        and buf = "''PDF-1.7 damaged''" and err = "Error ''Invalid PDF structure''",
        THEN conjunct2, THEN conjunct2, THEN conjunct2, THEN conjunct2, THEN conjunct1]
      ne p
    by simp
  then have pf: "fetchDocument demo_env_pdf urlP emptyWorld
     = (Throws (Error ''Invalid PDF structure''), \<lparr>cache = Map.empty, requests = [urlP]\<rparr>)"
    by (simp add: emptyWorld_def)
  show ?thesis
    using n1 demo_net_B(1) f1 c1 n demo_net_B(2) ex f2 f3 s m k1 k2 p pf
    by (intro conjI) simp_all
qed

section \<open>Properties of the OCR fallback\<close>

lemma scoreOcrText_nonneg: "0 \<le> scoreOcrText t kws"
  by (simp add: scoreOcrText_def Let_def)

lemma rotateLoop_skip:
  assumes "ocr 0 = Returns t0" "req" "scoreOcrText t0 kws < 1000"
  shows "rotateLoop ocr kws req angles best
           = rotateLoop ocr kws req (filter (\<lambda>a. a \<noteq> 0) angles) best"
proof (induction angles arbitrary: best)
  case Nil
  then show ?case by simp
next
  case (Cons a angles)
  show ?case
  proof (cases "a = 0")
    case True
    then show ?thesis using assms Cons.IH by simp
  next
    case False
    then show ?thesis using Cons.IH by (simp add: Let_def split: outcome.splits)
  qed
qed

lemma rotateLoop_best:
  assumes "0 \<notin> set angles" "\<forall>a\<in>set angles. ocr a = Returns (f a)"
  shows "\<exists>t. rotateLoop ocr kws req angles (bt, bs) = Returns t \<and>
            (\<forall>a\<in>set angles. scoreOcrText (f a) kws \<le> max bs (scoreOcrText t kws)) \<and>
            (t \<in> f ` set angles \<and> bs < scoreOcrText t kws \<or>
             t = bt \<and> (\<forall>a\<in>set angles. scoreOcrText (f a) kws \<le> bs))"
  using assms
proof (induction angles arbitrary: bt bs)
  case Nil
  then show ?case by simp
next
  case (Cons a angles)
  have a0: "a \<noteq> 0" and oa: "ocr a = Returns (f a)"
    and r0: "0 \<notin> set angles" and ra: "\<forall>a\<in>set angles. ocr a = Returns (f a)"
    using Cons.prems by auto
  let ?s = "scoreOcrText (f a) kws"
  show ?case
  proof (cases "?s > bs")
    case True
    have step: "rotateLoop ocr kws req (a # angles) (bt, bs)
                  = rotateLoop ocr kws req angles (f a, ?s)"
      using a0 oa True by (simp add: Let_def)
    from Cons.IH [OF r0 ra, of "f a" ?s]
    obtain t where t: "rotateLoop ocr kws req angles (f a, ?s) = Returns t"
        "\<forall>a\<in>set angles. scoreOcrText (f a) kws \<le> max ?s (scoreOcrText t kws)"
        "t \<in> f ` set angles \<and> ?s < scoreOcrText t kws \<or>
           t = f a \<and> (\<forall>a\<in>set angles. scoreOcrText (f a) kws \<le> ?s)"
      by blast
    have "rotateLoop ocr kws req (a # angles) (bt, bs) = Returns t" using step t(1) by simp
    moreover have "\<forall>x\<in>set (a # angles). scoreOcrText (f x) kws \<le> max bs (scoreOcrText t kws)"
      using t(2,3) True by auto
    moreover have "t \<in> f ` set (a # angles) \<and> bs < scoreOcrText t kws"
      using t(3) True by auto
    ultimately show ?thesis by blast
  next
    case False
    have step: "rotateLoop ocr kws req (a # angles) (bt, bs)
                  = rotateLoop ocr kws req angles (bt, bs)"
      using a0 oa False by (simp add: Let_def)
    from Cons.IH [OF r0 ra, of bt bs]
    obtain t where t: "rotateLoop ocr kws req angles (bt, bs) = Returns t"
        "\<forall>a\<in>set angles. scoreOcrText (f a) kws \<le> max bs (scoreOcrText t kws)"
        "t \<in> f ` set angles \<and> bs < scoreOcrText t kws \<or>
           t = bt \<and> (\<forall>a\<in>set angles. scoreOcrText (f a) kws \<le> bs)"
      by blast
    have "rotateLoop ocr kws req (a # angles) (bt, bs) = Returns t" using step t(1) by simp
    moreover have "\<forall>x\<in>set (a # angles). scoreOcrText (f x) kws \<le> max bs (scoreOcrText t kws)"
      using t(2) False by auto
    moreover have "t \<in> f ` set (a # angles) \<and> bs < scoreOcrText t kws \<or>
           t = bt \<and> (\<forall>x\<in>set (a # angles). scoreOcrText (f x) kws \<le> bs)"
      using t(3) False by auto
    ultimately show ?thesis by blast
  qed
qed

lemma rotateLoop_stop:
  assumes "ocr 0 = Returns t0" "1000 \<le> scoreOcrText t0 kws"
  shows "rotateLoop ocr kws req (0 # angles) ([], - 1) = Returns t0"
  using assms by (simp add: Let_def)


text \<open>
  Claim C9, as amended. When keywords are required and the text of the unrotated page has
  no keyword match (score below 1000), the rotation loop behaves as if the angle 0 were
  not in the list: that text is never a candidate, whatever the other rotations give. The
  text of the page is then a best-scoring text among the other rotations, and the empty
  text when there is none; with the unrotated page as the only angle the page contributes
  the empty text. When the unrotated page comes first and reaches the threshold its text
  is returned without any further rotation.
\<close>

theorem rotateLoop_unrotated_skipped:
  "(ocr 0 = Returns t0 \<and> requireKw \<and> scoreOcrText t0 kws < 1000 \<longrightarrow>
      rotateLoop ocr kws requireKw angles best
        = rotateLoop ocr kws requireKw (filter (\<lambda>a. a \<noteq> 0) angles) best) \<and>
   (0 \<notin> set others \<and> (\<forall>a\<in>set others. ocr a = Returns (f a)) \<longrightarrow>
      (\<exists>t. rotateLoop ocr kws requireKw others ([], - 1) = Returns t \<and>
           (if others = [] then t = [] else t \<in> f ` set others) \<and>
           (\<forall>a\<in>set others. scoreOcrText (f a) kws \<le> scoreOcrText t kws))) \<and>
   (ocr 0 = Returns t1 \<and> 1000 \<le> scoreOcrText t1 kws \<longrightarrow>
      rotateLoop ocr kws requireKw (0 # angles) ([], - 1) = Returns t1) \<and>
   (requireKeywords opts \<and> rotateAngles opts = [0] \<and>
    tesseract e (if o_langs opts = [] then ''eng'' else o_langs opts) (image p) 0 = Returns t2 \<and>
    scoreOcrText t2 (o_ocrKeywords opts) < 1000 \<longrightarrow>
      cliPageText e opts p = Returns [])"
proof -
  have b: "\<exists>t. rotateLoop ocr kws requireKw others ([], - 1) = Returns t \<and>
           (if others = [] then t = [] else t \<in> f ` set others) \<and>
           (\<forall>a\<in>set others. scoreOcrText (f a) kws \<le> scoreOcrText t kws)"
    if h: "0 \<notin> set others" "\<forall>a\<in>set others. ocr a = Returns (f a)"
  proof -
    from rotateLoop_best [OF h, of kws requireKw "[]" "- 1"]
    obtain t where t: "rotateLoop ocr kws requireKw others ([], - 1) = Returns t"
      "\<forall>a\<in>set others. scoreOcrText (f a) kws \<le> max (- 1) (scoreOcrText t kws)"
      "t \<in> f ` set others \<and> - 1 < scoreOcrText t kws \<or>
         t = [] \<and> (\<forall>a\<in>set others. scoreOcrText (f a) kws \<le> - 1)"
      by blast
    have nn: "0 \<le> scoreOcrText x kws" for x by (rule scoreOcrText_nonneg)
    have 1: "\<forall>a\<in>set others. scoreOcrText (f a) kws \<le> scoreOcrText t kws"
      using t(2) nn [of t] by (simp add: max_def)
    have 2: "if others = [] then t = [] else t \<in> f ` set others"
    proof (cases others)
      case Nil
      then show ?thesis using t(3) by auto
    next
      case (Cons a as)
      then have "\<not> scoreOcrText (f a) kws \<le> - 1" using nn [of "f a"] by simp
      then have "t \<in> f ` set others" using t(3) Cons by auto
      then show ?thesis using Cons by simp
    qed
    show ?thesis using t(1) 1 2 by blast
  qed
  have d: "cliPageText e opts p = Returns []"
    if h: "requireKeywords opts" "rotateAngles opts = [0]"
      "tesseract e (if o_langs opts = [] then ''eng'' else o_langs opts) (image p) 0 = Returns t2"
      "scoreOcrText t2 (o_ocrKeywords opts) < 1000"
    using h by (simp add: cliPageText_def Let_def)
  show ?thesis
    apply (intro conjI impI)
    subgoal using rotateLoop_skip by blast
    subgoal using b by blast
    subgoal using rotateLoop_stop by blast
    subgoal using d by blast
    done
qed

lemmas score_defs = scoreOcrText_def foldAscii_def toLowerChar_def is_digit_def keywordWeight_def
  is_space_def Let_def

lemma demo_page_score:
  "scoreOcrText ''Bang can doi ke toan 31.12.2024 tong tai san 12345''
     [''doanh thu'', ''doanh thu thuan'', ''revenue'', ''thu nhap''] = 13"
  by (simp add: score_defs)

lemma demo_empty_score: "scoreOcrText [] kws = int (sum_list (map (\<lambda>kw. if kw = [] then keywordWeight kw else 0) kws)) * 1000"
  by (simp add: scoreOcrText_def foldAscii_def Let_def cong: if_cong)

text \<open>
  Claim C9 as stated fails: with the four rotations configured and keywords required, the
  unrotated page of the example yields text without keywords and the three turned pages
  yield none. The page then contributes the empty text, though one rotation produced text.
\<close>

theorem unrotated_text_lost_counterexample:
  "requireKeywords demo_ocrOpts \<and>
   rotateAngles demo_ocrOpts = [0, 90, 180, 270] \<and>
   tesseract demo_env ''eng'' ''page-1.png'' 0
     = Returns ''Bang can doi ke toan 31.12.2024 tong tai san 12345'' \<and>
   scoreOcrText ''Bang can doi ke toan 31.12.2024 tong tai san 12345'' (o_ocrKeywords demo_ocrOpts) = 13 \<and>
   cliPageText demo_env demo_ocrOpts \<lparr>pageNum = 1, image = ''page-1.png''\<rparr> = Returns [] \<and>
   ocrWithCli demo_env [\<lparr>pageNum = 1, image = ''page-1.png''\<rparr>] demo_ocrOpts
     = Returns (Some [CHR 0x0A])"
proof -
  have r: "requireKeywords demo_ocrOpts" "rotateAngles demo_ocrOpts = [0, 90, 180, 270]"
    by (simp_all add: requireKeywords_def rotateAngles_def demo_ocrOpts_def)
  have k: "o_ocrKeywords demo_ocrOpts = [''doanh thu'', ''doanh thu thuan'', ''revenue'', ''thu nhap'']"
    "o_langs demo_ocrOpts = ''eng''"
    by (simp_all add: demo_ocrOpts_def)
  have t: "tesseract demo_env ''eng'' img angle
     = (if angle = 0 then Returns ''Bang can doi ke toan 31.12.2024 tong tai san 12345'' else Returns [])"
    for img angle
    by (simp add: demo_env_def demo_tesseract_def)
  have e: "scoreOcrText [] [''doanh thu'', ''doanh thu thuan'', ''revenue'', ''thu nhap''] = 0"
    by (simp add: demo_empty_score)
  have c: "cliPageText demo_env demo_ocrOpts pg = Returns []" for pg
    by (simp add: cliPageText_def r k t demo_page_score e Let_def)
  have o: "ocrWithCli demo_env [\<lparr>pageNum = 1, image = ''page-1.png''\<rparr>] demo_ocrOpts
     = Returns (Some [CHR 0x0A])"
  proof -
    have b: "tesseract_bin demo_env" by (simp add: demo_env_def)
    show ?thesis by (simp add: ocrWithCli_def b c)
  qed
  show ?thesis using r k t demo_page_score c o by simp
qed


text \<open>The theorem on the page of the example, with and without a keyword match.\<close>

theorem rotateLoop_unrotated_skipped_witness:
  "tesseract demo_env ''eng'' ''page-1.png'' 0
     = Returns ''Bang can doi ke toan 31.12.2024 tong tai san 12345'' \<and>
   scoreOcrText ''Bang can doi ke toan 31.12.2024 tong tai san 12345''
     [''doanh thu'', ''doanh thu thuan'', ''revenue'', ''thu nhap''] < 1000 \<and>
   rotateLoop (tesseract demo_env ''eng'' ''page-1.png'')
       [''doanh thu'', ''doanh thu thuan'', ''revenue'', ''thu nhap''] True [0, 90, 180, 270] ([], - 1)
     = rotateLoop (tesseract demo_env ''eng'' ''page-1.png'')
         [''doanh thu'', ''doanh thu thuan'', ''revenue'', ''thu nhap''] True
         (filter (\<lambda>a. a \<noteq> 0) [0, 90, 180, 270]) ([], - 1) \<and>
   0 \<notin> set [90, 180, 270 :: int] \<and>
   tesseract demo_env ''eng'' ''page-1.png'' 90 = Returns [] \<and>
   tesseract demo_env ''eng'' ''page-1.png'' 180 = Returns [] \<and>
   tesseract demo_env ''eng'' ''page-1.png'' 270 = Returns [] \<and>
   (\<exists>t. rotateLoop (tesseract demo_env ''eng'' ''page-1.png'')
           [''doanh thu'', ''doanh thu thuan'', ''revenue'', ''thu nhap''] True [90, 180, 270] ([], - 1)
          = Returns t \<and> t = []) \<and>
   1000 \<le> scoreOcrText ''Bang can doi ke toan 31.12.2024 tong tai san 12345'' [''tai san''] \<and>
   rotateLoop (tesseract demo_env ''eng'' ''page-1.png'') [''tai san''] True [0, 90, 180, 270] ([], - 1)
     = Returns ''Bang can doi ke toan 31.12.2024 tong tai san 12345'' \<and>
   requireKeywords (demo_ocrOpts\<lparr>o_rotateAngles := []\<rparr>) \<and>
   rotateAngles (demo_ocrOpts\<lparr>o_rotateAngles := []\<rparr>) = [0] \<and>
   cliPageText demo_env (demo_ocrOpts\<lparr>o_rotateAngles := []\<rparr>) \<lparr>pageNum = 1, image = ''page-1.png''\<rparr>
     = Returns []"
proof -
  let ?T = "''Bang can doi ke toan 31.12.2024 tong tai san 12345''"
  let ?K = "[''doanh thu'', ''doanh thu thuan'', ''revenue'', ''thu nhap'']"
  let ?ocr = "tesseract demo_env ''eng'' ''page-1.png''"
  have t: "tesseract demo_env langs img angle = (if angle = 0 then Returns ?T else Returns [])"
    for langs img angle
    by (simp add: demo_env_def demo_tesseract_def)
  have t0: "?ocr 0 = Returns ?T" by (simp add: t)
  have s0: "scoreOcrText ?T ?K < 1000" by (simp add: demo_page_score)
  have c1: "rotateLoop ?ocr ?K True [0, 90, 180, 270] ([], - 1)
     = rotateLoop ?ocr ?K True (filter (\<lambda>a. a \<noteq> 0) [0, 90, 180, 270]) ([], - 1)"
    using rotateLoop_unrotated_skipped
      [where ocr = ?ocr and ?t0.0 = ?T and requireKw = True and kws = ?K
         and angles = "[0, 90, 180, 270]" and best = "([], - 1)"] t0 s0
    by blast
  have h2: "0 \<notin> set [90, 180, 270 :: int]" "\<forall>a\<in>set [90, 180, 270]. ?ocr a = Returns ((\<lambda>a. []) a)"
    by (simp_all add: t)
  have "\<exists>t. rotateLoop ?ocr ?K True [90, 180, 270] ([], - 1) = Returns t \<and>
           (if [90, 180, 270 :: int] = [] then t = [] else t \<in> (\<lambda>a. []) ` set [90, 180, 270 :: int]) \<and>
           (\<forall>a\<in>set [90, 180, 270 :: int]. scoreOcrText ((\<lambda>a. []) a) ?K \<le> scoreOcrText t ?K)"
    using rotateLoop_unrotated_skipped
      [where ocr = ?ocr and requireKw = True and kws = ?K and others = "[90, 180, 270]"
         and f = "\<lambda>a. []"] h2
    by blast
  then have c2: "\<exists>t. rotateLoop ?ocr ?K True [90, 180, 270] ([], - 1) = Returns t \<and> t = []"
    by auto
  have s3: "1000 \<le> scoreOcrText ?T [''tai san'']" by (simp add: score_defs)
  have c3: "rotateLoop ?ocr [''tai san''] True [0, 90, 180, 270] ([], - 1) = Returns ?T"
    using rotateLoop_unrotated_skipped
      [where ocr = ?ocr and ?t1.0 = ?T and requireKw = True and kws = "[''tai san'']"
         and angles = "[90, 180, 270]"] t0 s3
    by blast
  have h4: "requireKeywords (demo_ocrOpts\<lparr>o_rotateAngles := []\<rparr>)"
    "rotateAngles (demo_ocrOpts\<lparr>o_rotateAngles := []\<rparr>) = [0]"
    "tesseract demo_env (if o_langs (demo_ocrOpts\<lparr>o_rotateAngles := []\<rparr>) = [] then ''eng''
        else o_langs (demo_ocrOpts\<lparr>o_rotateAngles := []\<rparr>))
       (image \<lparr>pageNum = 1, image = ''page-1.png''\<rparr>) 0 = Returns ?T"
    "scoreOcrText ?T (o_ocrKeywords (demo_ocrOpts\<lparr>o_rotateAngles := []\<rparr>)) < 1000"
    by (simp_all add: requireKeywords_def rotateAngles_def demo_ocrOpts_def t demo_page_score)
  have c4: "cliPageText demo_env (demo_ocrOpts\<lparr>o_rotateAngles := []\<rparr>)
       \<lparr>pageNum = 1, image = ''page-1.png''\<rparr> = Returns []"
    using rotateLoop_unrotated_skipped
      [where opts = "demo_ocrOpts\<lparr>o_rotateAngles := []\<rparr>" and e = demo_env
         and p = "\<lparr>pageNum = 1, image = ''page-1.png''\<rparr>" and ?t2.0 = ?T] h4
    by blast
  show ?thesis
    apply (intro conjI)
    subgoal by (rule t0)
    subgoal by (rule s0)
    subgoal by (rule c1)
    subgoal by (rule h2(1))
    subgoal by (simp add: t)
    subgoal by (simp add: t)
    subgoal by (simp add: t)
    subgoal by (rule c2)
    subgoal by (rule s3)
    subgoal by (rule c3)
    subgoal by (rule h4(1))
    subgoal by (rule h4(2))
    subgoal by (rule c4)
    done
qed

section \<open>Properties of the candidate ranking\<close>

lemma dedupeLoop_props:
  "distinct (map c_url (dedupeLoop seen items)) \<and>
   set (dedupeLoop seen items) \<subseteq> set items \<and>
   c_url ` set (dedupeLoop seen items) = c_url ` set items - set seen - {[]}"
proof (induction items arbitrary: seen)
  case Nil
  then show ?case by simp
next
  case (Cons item items)
  show ?case
  proof (cases "c_url item = [] \<or> c_url item \<in> set seen")
    case True
    then show ?thesis using Cons.IH [of seen] by auto
  next
    case False
    have ih: "distinct (map c_url (dedupeLoop (c_url item # seen) items))"
      "set (dedupeLoop (c_url item # seen) items) \<subseteq> set items"
      "c_url ` set (dedupeLoop (c_url item # seen) items)
         = c_url ` set items - set (c_url item # seen) - {[]}"
      using Cons.IH [of "c_url item # seen"] by auto
    have d: "dedupeLoop seen (item # items) = item # dedupeLoop (c_url item # seen) items"
      using False by simp
    have 1: "distinct (map c_url (dedupeLoop seen (item # items)))"
      unfolding d using ih(1,3) by auto
    have 2: "set (dedupeLoop seen (item # items)) \<subseteq> set (item # items)"
      unfolding d using ih(2) by auto
    have 3: "c_url ` set (dedupeLoop seen (item # items))
               = c_url ` set (item # items) - set seen - {[]}"
      unfolding d using ih(3) False by auto
    show ?thesis using 1 2 3 by blast
  qed
qed

lemma keepIfAny_subset: "set (keepIfAny P xs) \<subseteq> set xs"
proof (cases "filter P xs = []")
  case True
  then show ?thesis by (simp add: keepIfAny_def)
next
  case False
  then have "keepIfAny P xs = filter P xs" by (simp add: keepIfAny_def)
  then show ?thesis by simp
qed

lemma filterCandidates_subset: "set (filterCandidates meta pool) \<subseteq> set pool"
proof -
  define c1 where "c1 = (if map foldAscii (km_urlKeywords meta) \<noteq> []
      then keepIfAny (hasKeyword (map foldAscii (km_urlKeywords meta))) pool else pool)"
  define c2 where "c2 = (if km_requiresPdf meta
      then keepIfAny (\<lambda>item :: candidate. str_includes (toLowerCase (c_url item)) ''.pdf'') c1 else c1)"
  have f: "filterCandidates meta pool = keepIfAny hasPeriod c2"
    by (simp add: filterCandidates_def c1_def c2_def Let_def)
  have 1: "set c1 \<subseteq> set pool" unfolding c1_def using keepIfAny_subset by (cases "map foldAscii (km_urlKeywords meta) = []") simp_all
  have 2: "set c2 \<subseteq> set c1" unfolding c2_def using keepIfAny_subset by (cases "km_requiresPdf meta") simp_all
  have 3: "set (keepIfAny hasPeriod c2) \<subseteq> set c2" by (rule keepIfAny_subset)
  show ?thesis unfolding f using 1 2 3 by (rule_tac subset_trans [OF _ subset_trans]) 
qed

lemma sorted_desc:
  "sorted_wrt (\<lambda>a b. f b \<le> (f a :: nat)) (sort_key (\<lambda>x. - int (f x)) xs)"
proof -
  have "sorted (map (\<lambda>x. - int (f x)) (sort_key (\<lambda>x. - int (f x)) xs))" by (rule sorted_sort_key)
  then have "sorted_wrt (\<lambda>a b. - int (f a) \<le> - int (f b)) (sort_key (\<lambda>x. - int (f x)) xs)"
    by (simp add: sorted_map)
  then show ?thesis by (rule sorted_wrt_mono_rel [rotated]) simp
qed


text \<open>
  Claim C8. From the raw pool the candidate list is built in this order. The keyword
  filter (when the KPI has URL keywords), the PDF filter (when the KPI requires PDF
  sources) and the filter on an inferable period are applied one after the other, each
  only when it keeps at least one candidate. The survivors are deduplicated by URL, the
  first candidate of a URL being kept; candidates scoring below 3 are dropped whatever
  remains; the rest is sorted by descending score and cut to the maximum number of
  documents, \<^verbatim>\<open>maxDocs || 80\<close>. So the list has distinct URLs, scores of at least 3 in
  descending order, at most that many entries, all taken from the pool.
\<close>

theorem rankCandidates_pipeline:
  "(let keywordList = map foldAscii (km_urlKeywords meta);
        isPdfUrl = (\<lambda>item :: candidate. str_includes (toLowerCase (c_url item)) ''.pdf'');
        c1 = (if keywordList \<noteq> [] \<and> filter (hasKeyword keywordList) pool \<noteq> []
              then filter (hasKeyword keywordList) pool else pool);
        c2 = (if km_requiresPdf meta \<and> filter isPdfUrl c1 \<noteq> [] then filter isPdfUrl c1 else c1);
        c3 = (if filter hasPeriod c2 \<noteq> [] then filter hasPeriod c2 else c2);
        d = dedupeEntries c3;
        kept = filter (\<lambda>item. 3 \<le> scoreCandidate item kpiKey) d;
        ranked = rankCandidates meta kpiKey maxDocs pool
    in filterCandidates meta pool = c3 \<and>
       distinct (map c_url d) \<and> set d \<subseteq> set c3 \<and> c_url ` set d = c_url ` set c3 - {[]} \<and>
       (\<exists>sorted. ranked = take (effectiveMaxDocs maxDocs) sorted \<and> mset sorted = mset kept \<and>
          sorted_wrt (\<lambda>a b. scoreCandidate b kpiKey \<le> scoreCandidate a kpiKey) sorted) \<and>
       length ranked \<le> effectiveMaxDocs maxDocs \<and>
       effectiveMaxDocs maxDocs = (if maxDocs = 0 then 80 else maxDocs) \<and>
       (\<forall>item\<in>set ranked. 3 \<le> scoreCandidate item kpiKey) \<and>
       distinct (map c_url ranked) \<and>
       sorted_wrt (\<lambda>a b. scoreCandidate b kpiKey \<le> scoreCandidate a kpiKey) ranked \<and>
       set ranked \<subseteq> set pool)"
proof -
  define keywordList where "keywordList = map foldAscii (km_urlKeywords meta)"
  define isPdfUrl where "isPdfUrl = (\<lambda>item :: candidate. str_includes (toLowerCase (c_url item)) ''.pdf'')"
  define c1 where "c1 = (if keywordList \<noteq> [] \<and> filter (hasKeyword keywordList) pool \<noteq> []
              then filter (hasKeyword keywordList) pool else pool)"
  define c2 where "c2 = (if km_requiresPdf meta \<and> filter isPdfUrl c1 \<noteq> [] then filter isPdfUrl c1 else c1)"
  define c3 where "c3 = (if filter hasPeriod c2 \<noteq> [] then filter hasPeriod c2 else c2)"
  define d where "d = dedupeEntries c3"
  define kept where "kept = filter (\<lambda>item. 3 \<le> scoreCandidate item kpiKey) d"
  define srt where "srt = sort_key (\<lambda>item. - int (scoreCandidate item kpiKey)) kept"
  define ranked where "ranked = rankCandidates meta kpiKey maxDocs pool"
  have k: "keepIfAny P xs = (if filter P xs \<noteq> [] then filter P xs else xs)"
    for P :: "candidate \<Rightarrow> bool" and xs
    by (simp add: keepIfAny_def)
  have f1: "(if keywordList \<noteq> [] then keepIfAny (hasKeyword keywordList) pool else pool) = c1"
    unfolding c1_def k by (cases "keywordList = []") simp_all
  have f2: "(if km_requiresPdf meta then keepIfAny isPdfUrl c1 else c1) = c2"
    unfolding c2_def k by (cases "km_requiresPdf meta") simp_all
  have f3: "keepIfAny hasPeriod c2 = c3"
    unfolding c3_def k ..
  have f: "filterCandidates meta pool = c3"
    unfolding filterCandidates_def Let_def keywordList_def [symmetric] isPdfUrl_def [symmetric]
      f1 f2 f3 ..
  have dd: "distinct (map c_url d)" "set d \<subseteq> set c3" "c_url ` set d = c_url ` set c3 - {[]}"
    using dedupeLoop_props [of "[]" c3] by (simp_all add: d_def dedupeEntries_def)
  have r: "ranked = take (effectiveMaxDocs maxDocs) srt"
    by (simp add: ranked_def rankCandidates_def f srt_def kept_def d_def)
  have m: "mset srt = mset kept" by (simp add: srt_def)
  have s: "sorted_wrt (\<lambda>a b. scoreCandidate b kpiKey \<le> scoreCandidate a kpiKey) srt"
    unfolding srt_def by (rule sorted_desc)
  have l: "length ranked \<le> effectiveMaxDocs maxDocs" by (simp add: r)
  have e: "effectiveMaxDocs maxDocs = (if maxDocs = 0 then 80 else maxDocs)"
    by (simp add: effectiveMaxDocs_def)
  have sk: "set srt = set kept" using m by (rule mset_eq_setD)
  have rs: "set ranked \<subseteq> set kept" unfolding r using sk set_take_subset by fastforce
  have q: "\<forall>item\<in>set ranked. 3 \<le> scoreCandidate item kpiKey"
    using rs by (auto simp: kept_def)
  have dk: "distinct (map c_url kept)" unfolding kept_def using dd(1) by (simp add: distinct_map_filter)
  have "mset (map c_url srt) = mset (map c_url kept)" by (simp add: srt_def)
  then have "distinct (map c_url srt) = distinct (map c_url kept)" by (rule mset_eq_imp_distinct_iff)
  then have ds: "distinct (map c_url srt)" using dk by simp
  have dr: "distinct (map c_url ranked)" unfolding r take_map [symmetric] using ds by (rule distinct_take)
  have sr: "sorted_wrt (\<lambda>a b. scoreCandidate b kpiKey \<le> scoreCandidate a kpiKey) ranked"
    unfolding r using s by (rule sorted_wrt_take)
  have sp: "set ranked \<subseteq> set pool"
    using rs dd(2) filterCandidates_subset [of meta pool] by (auto simp: kept_def f)
  have ex: "\<exists>sorted. ranked = take (effectiveMaxDocs maxDocs) sorted \<and> mset sorted = mset kept \<and>
          sorted_wrt (\<lambda>a b. scoreCandidate b kpiKey \<le> scoreCandidate a kpiKey) sorted"
    using r m s by blast
  have "filterCandidates meta pool = c3 \<and>
       distinct (map c_url d) \<and> set d \<subseteq> set c3 \<and> c_url ` set d = c_url ` set c3 - {[]} \<and>
       (\<exists>sorted. ranked = take (effectiveMaxDocs maxDocs) sorted \<and> mset sorted = mset kept \<and>
          sorted_wrt (\<lambda>a b. scoreCandidate b kpiKey \<le> scoreCandidate a kpiKey) sorted) \<and>
       length ranked \<le> effectiveMaxDocs maxDocs \<and>
       effectiveMaxDocs maxDocs = (if maxDocs = 0 then 80 else maxDocs) \<and>
       (\<forall>item\<in>set ranked. 3 \<le> scoreCandidate item kpiKey) \<and>
       distinct (map c_url ranked) \<and>
       sorted_wrt (\<lambda>a b. scoreCandidate b kpiKey \<le> scoreCandidate a kpiKey) ranked \<and>
       set ranked \<subseteq> set pool"
    using f dd ex l e q dr sr sp by (intro conjI)
  then show ?thesis
    unfolding Let_def keywordList_def isPdfUrl_def c1_def c2_def c3_def d_def kept_def ranked_def .
qed


lemma demo_filter: "filterCandidates demo_meta [item1, item2, item3, item4] = [item2, item3, item4]"
  by code_simp

lemma demo_dedupe: "dedupeEntries [item2, item3, item4] = [item2, item3]"
  by (simp add: dedupeEntries_def item2_def item3_def item4_def)

lemma demo_score2: "scoreCandidate item2 ''rev'' = 10"
  by code_simp

lemma demo_score3: "scoreCandidate item3 ''rev'' = 18"
  by code_simp

lemma demo_rank:
  "rankCandidates demo_meta ''rev'' 1 [item1, item2, item3, item4] = [item3]"
  by (simp add: rankCandidates_def demo_filter demo_dedupe demo_score2 demo_score3
        effectiveMaxDocs_def)

text \<open>
  The theorem on a pool of four candidates: the first has no keyword, the last repeats
  the URL of the second, and one document is asked for.
\<close>

theorem rankCandidates_pipeline_witness:
  "filterCandidates demo_meta [item1, item2, item3, item4] = [item2, item3, item4] \<and>
   dedupeEntries [item2, item3, item4] = [item2, item3] \<and>
   scoreCandidate item2 ''rev'' = 10 \<and> scoreCandidate item3 ''rev'' = 18 \<and>
   rankCandidates demo_meta ''rev'' 1 [item1, item2, item3, item4] = [item3] \<and>
   length (rankCandidates demo_meta ''rev'' 1 [item1, item2, item3, item4]) \<le> effectiveMaxDocs 1 \<and>
   effectiveMaxDocs 1 = (if (1::nat) = 0 then 80 else 1) \<and>
   distinct (map c_url (rankCandidates demo_meta ''rev'' 1 [item1, item2, item3, item4])) \<and>
   set (rankCandidates demo_meta ''rev'' 1 [item1, item2, item3, item4])
     \<subseteq> set [item1, item2, item3, item4]"
proof -
  note t = rankCandidates_pipeline
    [of demo_meta "[item1, item2, item3, item4]" "''rev''" 1, unfolded Let_def]
  have l: "length (rankCandidates demo_meta ''rev'' 1 [item1, item2, item3, item4])
             \<le> effectiveMaxDocs 1"
    using t by (elim conjE)
  have e: "effectiveMaxDocs 1 = (if (1::nat) = 0 then 80 else 1)"
    using t by (elim conjE)
  have d: "distinct (map c_url (rankCandidates demo_meta ''rev'' 1 [item1, item2, item3, item4]))"
    using t by (elim conjE)
  have s: "set (rankCandidates demo_meta ''rev'' 1 [item1, item2, item3, item4])
             \<subseteq> set [item1, item2, item3, item4]"
    using t by (elim conjE)
  show ?thesis
    using demo_filter demo_dedupe demo_score2 demo_score3 demo_rank l e d s
    by (intro conjI)
qed

section \<open>Properties of the series and of hydration\<close>

subsection \<open>Assignments keep the periods\<close>

lemma setValue_periods: "map p_period (setValue p v s) = map p_period s"
  by (induction s) auto

lemma setValue_length: "length (setValue p v s) = length s"
  by (induction s) auto

lemma lookupValue_setValue:
  "lookupValue (setValue p v s) q
     = (if q = p \<and> p \<in> set (map p_period s) then Some v else lookupValue s q)"
  by (induction s) (auto simp: lookupValue_def)

lemma setValue_keeps_filled:
  "lookupValue s p = Some None \<Longrightarrow> i < length s \<Longrightarrow> p_value (s ! i) \<noteq> None \<Longrightarrow>
     setValue p v s ! i = s ! i"
proof (induction s arbitrary: i)
  case Nil
  then show ?case by simp
next
  case (Cons x xs)
  show ?case
  proof (cases "p_period x = p")
    case True
    then have "p_value x = None" using Cons.prems(1) by (simp add: lookupValue_def)
    then have "i \<noteq> 0" using Cons.prems(3) by (cases i) auto
    then show ?thesis using True by (cases i) auto
  next
    case False
    then have l: "lookupValue xs p = Some None" using Cons.prems(1) by (simp add: lookupValue_def)
    show ?thesis
    proof (cases i)
      case 0
      then show ?thesis using False by simp
    next
      case (Suc j)
      then show ?thesis using False Cons.IH [OF l, of j] Cons.prems(2,3) by simp
    qed
  qed
qed

lemma missing_lookup:
  "distinct (map p_period s) \<Longrightarrow> p \<in> set (missingPeriods s) \<Longrightarrow> lookupValue s p = Some None"
proof (induction s)
  case Nil
  then show ?case by (simp add: missingPeriods_def)
next
  case (Cons x xs)
  show ?case
  proof (cases "p_period x = p")
    case True
    have "p \<notin> set (map p_period xs)" using Cons.prems(1) True by auto
    then have "p \<notin> set (missingPeriods xs)" by (auto simp: missingPeriods_def)
    then have "p_value x = None" using Cons.prems(2) True by (auto simp: missingPeriods_def split: if_splits)
    then show ?thesis using True by (simp add: lookupValue_def)
  next
    case False
    then have "p \<in> set (missingPeriods xs)" using Cons.prems(2) by (auto simp: missingPeriods_def split: if_splits)
    then have "lookupValue xs p = Some None" using Cons.IH Cons.prems(1) by simp
    then show ?thesis using False by (simp add: lookupValue_def)
  qed
qed

lemma explicitEntry_cases:
  "explicitEntry e unitKind lo hi ent (w, s) = Some (w', s') \<Longrightarrow>
     s' = s \<or> (\<exists>v. s' = setValue (e_period ent) v s)"
  by (auto simp: explicitEntry_def split: if_splits prod.splits outcome.splits option.splits)

lemma autoCandidate_cases:
  "autoCandidate e meta cfg item (w, s, m, r) = Some (w', s', m', r') \<Longrightarrow>
     (s' = s \<and> m' = m) \<or>
     (\<exists>p v. p \<in> set m \<and> s' = setValue p (Some v) s \<and> m' = removeAll p m)"
  by (auto simp: autoCandidate_def Let_def
           split: if_splits prod.splits outcome.splits option.splits)


lemma explicitLoop_periods:
  "explicitLoop e unitKind lo hi ents (w, s) = Some (w', s') \<Longrightarrow> map p_period s' = map p_period s"
proof (induction ents arbitrary: w s)
  case Nil
  then show ?case by simp
next
  case (Cons ent ents)
  then obtain w1 s1 where st: "explicitEntry e unitKind lo hi ent (w, s) = Some (w1, s1)"
    and rest: "explicitLoop e unitKind lo hi ents (w1, s1) = Some (w', s')"
    by (auto split: option.splits)
  have "map p_period s1 = map p_period s"
    using explicitEntry_cases [OF st] by (auto simp: setValue_periods)
  then show ?case using Cons.IH [OF rest] by simp
qed

lemma autoLoop_keeps:
  "autoLoop e meta cfg items (w, s, m, r) = Some (w', s', m', r') \<Longrightarrow>
   \<forall>p\<in>set m. lookupValue s p = Some None \<Longrightarrow>
     map p_period s' = map p_period s \<and>
     (\<forall>i<length s. p_value (s ! i) \<noteq> None \<longrightarrow> s' ! i = s ! i)"
proof (induction items arbitrary: w s m r)
  case Nil
  then show ?case by simp
next
  case (Cons item items)
  show ?case
  proof (cases "m = []")
    case True
    then show ?thesis using Cons.prems(1) by simp
  next
    case False
    then obtain w1 s1 m1 r1 where st: "autoCandidate e meta cfg item (w, s, m, r) = Some (w1, s1, m1, r1)"
      and rest: "autoLoop e meta cfg items (w1, s1, m1, r1) = Some (w', s', m', r')"
      using Cons.prems(1) by (auto split: option.splits)
    from autoCandidate_cases [OF st]
    consider "s1 = s" "m1 = m"
      | p v where "p \<in> set m" "s1 = setValue p (Some v) s" "m1 = removeAll p m"
      by blast
    then show ?thesis
    proof cases
      case 1
      then show ?thesis using Cons.IH [OF rest] Cons.prems(2) by simp
    next
      case 2
      have lp: "lookupValue s p = Some None" using 2(1) Cons.prems(2) by blast
      have inv: "\<forall>q\<in>set m1. lookupValue s1 q = Some None"
        using 2(2,3) Cons.prems(2) by (auto simp: lookupValue_setValue)
      have ih: "map p_period s' = map p_period s1"
        "\<forall>i<length s1. p_value (s1 ! i) \<noteq> None \<longrightarrow> s' ! i = s1 ! i"
        using Cons.IH [OF rest inv] by auto
      have per: "map p_period s' = map p_period s" using ih(1) 2(2) by (simp add: setValue_periods)
      have keep: "s' ! i = s ! i" if i: "i < length s" "p_value (s ! i) \<noteq> None" for i
      proof -
        have eq: "s1 ! i = s ! i" unfolding 2(2) using lp i by (rule setValue_keeps_filled)
        have "i < length s1" using i(1) 2(2) by (simp add: setValue_length)
        then have "s' ! i = s1 ! i" using ih(2) eq i(2) by simp
        then show ?thesis using eq by simp
      qed
      show ?thesis using per keep by blast
    qed
  qed
qed

lemma autoLoop_periods:
  "autoLoop e meta cfg items (w, s, m, r) = Some (w', s', m', r') \<Longrightarrow>
     map p_period s' = map p_period s"
proof (induction items arbitrary: w s m r)
  case Nil
  then show ?case by simp
next
  case (Cons item items)
  show ?case
  proof (cases "m = []")
    case True
    then show ?thesis using Cons.prems by simp
  next
    case False
    then obtain w1 s1 m1 r1 where st: "autoCandidate e meta cfg item (w, s, m, r) = Some (w1, s1, m1, r1)"
      and rest: "autoLoop e meta cfg items (w1, s1, m1, r1) = Some (w', s', m', r')"
      using Cons.prems by (auto split: option.splits)
    have "map p_period s1 = map p_period s"
      using autoCandidate_cases [OF st] by (auto simp: setValue_periods)
    then show ?thesis using Cons.IH [OF rest] by simp
  qed
qed

lemma autoFillSeries_loop:
  assumes "autoFillSeries e (Some meta) kpiKey cfg (w, s) = Some (w', s')"
  shows "\<exists>items w1 r m' r'.
           autoLoop e meta cfg items (w1, s, missingPeriods s, r) = Some (w', s', m', r')"
proof -
  obtain pool w1 where c: "crawl e w = (pool, w1)" by (cases "crawl e w") auto
  from assms obtain m' r' where
    "autoLoop e meta cfg (rankCandidates meta kpiKey (ac_maxDocs cfg) pool)
          (w1, s, missingPeriods s, (case ac_ocrMaxDocs cfg of Some n \<Rightarrow> n | None \<Rightarrow> 8))
        = Some (w', s', m', r')"
    unfolding autoFillSeries_def by (auto simp: c Let_def split: option.splits)
  then show ?thesis by blast
qed

lemma autoFillSeries_periods:
  assumes "autoFillSeries e kpiMeta kpiKey cfg (w, s) = Some (w', s')"
  shows "map p_period s' = map p_period s"
proof (cases kpiMeta)
  case None
  then show ?thesis using assms by (simp add: autoFillSeries_def)
next
  case (Some meta)
  then obtain items w1 r m' r' where
    "autoLoop e meta cfg items (w1, s, missingPeriods s, r) = Some (w', s', m', r')"
    using assms autoFillSeries_loop by blast
  then show ?thesis by (rule autoLoop_periods)
qed

lemma autoFillSeries_keeps:
  assumes "distinct (map p_period s)" "autoFillSeries e kpiMeta kpiKey cfg (w, s) = Some (w', s')"
  shows "\<forall>i<length s. p_value (s ! i) \<noteq> None \<longrightarrow> s' ! i = s ! i"
proof (cases kpiMeta)
  case None
  then show ?thesis using assms(2) by (simp add: autoFillSeries_def)
next
  case (Some meta)
  then obtain items w1 r m' r' where
    l: "autoLoop e meta cfg items (w1, s, missingPeriods s, r) = Some (w', s', m', r')"
    using assms(2) autoFillSeries_loop by blast
  have inv: "\<forall>p\<in>set (missingPeriods s). lookupValue s p = Some None"
    using assms(1) missing_lookup by blast
  show ?thesis using autoLoop_keeps [OF l inv] by blast
qed

lemma hydrateSeries_periods:
  assumes "hydrateSeries e kpiMeta k w = Some (w', s')"
  shows "map p_period s' = map p_period (k_series k)"
proof -
  obtain cfg w0 where c: "(if k_cfg k = [] \<and> k_hasDiscover k
                       then (case discoverEntries e w of (discovered, w') \<Rightarrow> (k_cfg k @ discovered, w'))
                       else (k_cfg k, w)) = (cfg, w0)"
    by (cases "(if k_cfg k = [] \<and> k_hasDiscover k
                       then (case discoverEntries e w of (discovered, w') \<Rightarrow> (k_cfg k @ discovered, w'))
                       else (k_cfg k, w))") auto
  from assms obtain unitKind lo hi wa sa where
    x: "explicitLoop e unitKind lo hi cfg (w0, k_series k) = Some (wa, sa)"
    and y: "(if ac_enabled (k_auto k) \<and> missingPeriods sa \<noteq> []
             then autoFillSeries e kpiMeta (k_key k) (k_auto k) (wa, sa) else Some (wa, sa))
            = Some (w', s')"
    unfolding hydrateSeries_def c Let_def by (auto split: option.splits)
  have 1: "map p_period sa = map p_period (k_series k)" using x by (rule explicitLoop_periods)
  have 2: "map p_period s' = map p_period sa"
  proof (cases "ac_enabled (k_auto k) \<and> missingPeriods sa \<noteq> []")
    case True
    then have "autoFillSeries e kpiMeta (k_key k) (k_auto k) (wa, sa) = Some (w', s')"
      using y by simp
    then show ?thesis by (rule autoFillSeries_periods)
  next
    case False
    then have "Some (wa, sa) = Some (w', s')" using y by (simp split: if_splits)
    then show ?thesis by simp
  qed
  show ?thesis using 1 2 by simp
qed

lemma blankSeries_shape:
  "length blankSeries = 20" "map p_period blankSeries = PERIODS_Q"
  "list_all (\<lambda>x. p_value x = None) blankSeries" "distinct PERIODS_Q"
  "PERIODS_Q = concat (map (\<lambda>y. map (\<lambda>q. y @ ''Q'' @ q) [''1'', ''2'', ''3'', ''4''])
                          [''2021'', ''2022'', ''2023'', ''2024'', ''2025''])"
  by (simp_all add: blankSeries_def PERIODS_Q_def comp_def list_all_iff)

subsection \<open>The run of the example\<close>

lemma demo_fetch_A_hit: "fetchDocument demo_env urlA world2 = (Returns docA, world2)"
  by (simp add: fetchDocument_def world2_def)

lemma demo_match:
  "rx_exec (regex demo_env) storesPattern (doc_folded docA) i
     = (if i \<le> 1 then Some \<lparr>m_index = 1, m_all = ''so cua hang: 412'', m_group1 = Some ''412'',
                              m_group2 = None\<rparr> else None)"
  "rx_exec (regex demo_env) storesPattern (doc_folded docB) i = None"
  "rx_valid (regex demo_env) p"
  by (simp_all add: demo_env_def demo_regex_def docA_def docB_def)

lemma demo_value:
  "normalizeByUnit (normalizeNumber (pickNumberToken (Some ''412'') ''count'')) []
     ''so cua hang: 412'' ''count'' = Some 412"
  by (simp add: pickNumberToken_def is_digit_def is_numch_def minDigits_def digitCount_def
        normalizeNumber_def scrub_def js_Number_def unsigned_literal_def digits_val_def
        digit_val_def normalizeByUnit_def)

lemma demo_accept:
  "acceptMatch t ''count'' (Some 50) None None True
     \<lparr>m_index = n, m_all = ''so cua hang: 412'', m_group1 = Some ''412'', m_group2 = None\<rparr>
   = Some 412"
  "acceptMatch t ''count'' (Some 50) None p False
     \<lparr>m_index = n, m_all = ''so cua hang: 412'', m_group1 = Some ''412'', m_group2 = None\<rparr>
   = Some 412"
  by (simp_all add: acceptMatch_def demo_value hasPeriodNearMatch_def)

lemma demo_extract_A:
  "extractValueFromText (regex demo_env) (doc_folded docA) [storesPattern] ''count'' (Some 50) None
     None True = Some (Returns (Some 412))"
proof -
  have "scanMatches (rx_exec (regex demo_env) storesPattern (doc_folded docA))
          (acceptMatch (doc_folded docA) ''count'' (Some 50) None None True) 0 = Some (Some 412)"
    by (subst scanMatches.simps) (simp add: demo_match demo_accept)
  then show ?thesis by (simp add: extractValueFromText_def demo_match)
qed

lemma demo_extract_B:
  "extractValueFromText (regex demo_env) (doc_folded docB) [storesPattern] ''count'' (Some 50) None
     None True = Some (Returns None)"
proof -
  have "scanMatches (rx_exec (regex demo_env) storesPattern (doc_folded docB))
          (acceptMatch (doc_folded docB) ''count'' (Some 50) None None True) 0 = Some None"
    by (subst scanMatches.simps) (simp add: demo_match)
  then show ?thesis by (simp add: extractValueFromText_def demo_match)
qed

lemma demo_entries:
  "e_period entA = ''2024Q4''" "e_url entA = urlA" "e_pattern entA = storesPattern"
  "e_period entB = ''2024Q4''" "e_url entB = urlB" "e_pattern entB = storesPattern"
  "''2024Q4'' \<in> set PERIODS_Q" "urlA \<noteq> []" "urlB \<noteq> []" "storesPattern \<noteq> []"
  by (simp_all add: entA_def entB_def PERIODS_Q_def urlA_def urlB_def storesPattern_def)

lemma demo_explicit_1:
  "explicitLoop demo_env ''count'' (Some 50) None [entA, entB] (emptyWorld, blankSeries)
     = Some (world2, series1)"
  by (simp add: explicitEntry_def demo_entries demo_fetch_A demo_fetch_B_fails demo_extract_A
        series1_def)

lemma demo_explicit_2:
  "explicitLoop demo_env ''count'' (Some 50) None [entA, entB] (world2, series1)
     = Some (world3, series2)"
  by (simp add: explicitEntry_def demo_entries demo_fetch_A_hit demo_fetch_B demo_extract_A
        demo_extract_B series2_def)

lemma demo_lookup:
  "lookupValue series1 ''2024Q4'' = Some (Some 412)" "lookupValue series2 ''2024Q4'' = Some None"
  by (simp_all add: series1_def series2_def lookupValue_setValue setValue_periods
        blankSeries_shape(2) demo_entries)

lemma demo_infer:
  "inferPeriodFromString urlA = Some ''2024Q4''" "inferPeriodFromString [] = None"
  by code_simp+

lemma demo_rank_stores: "rankCandidates demo_stores_meta ''stores'' 0 [candA] = [candA]"
  by code_simp

lemma demo_far: "\<not> hasPeriodNearMatch (doc_folded docA) n (Some ''2024Q4'')"
proof
  assume "hasPeriodNearMatch (doc_folded docA) n (Some ''2024Q4'')"
  then have "str_includes (slice (n - 180) (n + 260) '' so cua hang: 412 '') ''2024''"
    by (simp add: hasPeriodNearMatch_def Let_def docA_def slice_def [of 0 4])
  then obtain a b where "slice (n - 180) (n + 260) '' so cua hang: 412 '' = a @ ''2024'' @ b"
    unfolding str_includes_iff by blast
  then have "CHR ''0'' \<in> set (slice (n - 180) (n + 260) '' so cua hang: 412 '')" by simp
  then have "CHR ''0'' \<in> set '' so cua hang: 412 ''"
    unfolding slice_def by (meson in_set_dropD in_set_takeD)
  then show False by simp
qed

lemma demo_meta_fields:
  "km_primary demo_stores_meta = [storesPattern]" "km_fallback demo_stores_meta = []"
  "km_unitKind demo_stores_meta = ''count''" "km_minValue demo_stores_meta = Some 50"
  "km_maxValue demo_stores_meta = None"
  "ac_ocr demo_auto = False" "ac_enabled demo_auto = True" "ac_maxDocs demo_auto = 0"
  "ac_ocrMaxDocs demo_auto = None"
  by (simp_all add: demo_stores_meta_def demo_auto_def)

lemma demo_extract_strict:
  "extractValueFromText (regex demo_env) (doc_folded docA) [storesPattern] ''count'' (Some 50) None
     (Some ''2024Q4'') True = Some (Returns None)"
proof -
  have r: "acceptMatch (doc_folded docA) ''count'' (Some 50) None (Some ''2024Q4'') True
     \<lparr>m_index = n, m_all = ''so cua hang: 412'', m_group1 = Some ''412'', m_group2 = None\<rparr>
     = None" for n
    by (simp add: acceptMatch_def demo_value demo_far)
  have 2: "1 < k \<Longrightarrow> scanMatches (rx_exec (regex demo_env) storesPattern (doc_folded docA))
          (acceptMatch (doc_folded docA) ''count'' (Some 50) None (Some ''2024Q4'') True) k
        = Some None" for k
    by (subst scanMatches.simps) (simp add: demo_match)
  have "scanMatches (rx_exec (regex demo_env) storesPattern (doc_folded docA))
          (acceptMatch (doc_folded docA) ''count'' (Some 50) None (Some ''2024Q4'') True) 0
        = Some None"
    by (subst scanMatches.simps) (simp add: demo_match r 2)
  then show ?thesis by (simp add: extractValueFromText_def demo_match)
qed

lemma demo_extract_relaxed:
  "extractValueFromText (regex demo_env) (doc_folded docA) [storesPattern] ''count'' (Some 50) None
     (Some ''2024Q4'') False = Some (Returns (Some 412))"
proof -
  have "scanMatches (rx_exec (regex demo_env) storesPattern (doc_folded docA))
          (acceptMatch (doc_folded docA) ''count'' (Some 50) None (Some ''2024Q4'') False) 0
        = Some (Some 412)"
    by (subst scanMatches.simps) (simp add: demo_match demo_accept)
  then show ?thesis by (simp add: extractValueFromText_def demo_match)
qed

lemma demo_autoValue:
  "autoValue demo_env demo_stores_meta demo_auto docA ''2024Q4'' (Some ''2024Q4'') (None, None, r)
     = Some (Returns (Some 412, r))"
  by (simp add: autoValue_def Let_def demo_meta_fields demo_extract_strict demo_extract_relaxed
        or_try_def)

lemma demo_autoPeriod:
  "autoPeriod demo_env demo_stores_meta demo_auto docA (Some ''2024Q4'') None r
     = Returns (Some ''2024Q4'', (None, None, r))"
  by (simp add: autoPeriod_def Let_def demo_meta_fields)

lemma demo_missing0:
  "''2024Q4'' \<in> set (missingPeriods series0)" "missingPeriods series0 \<noteq> []"
  "''2024Q4'' \<in> set (map p_period series0)" "''2024Q4'' \<in> p_period ` set series0"
  by (simp_all add: series0_def blankSeries_def PERIODS_Q_def missingPeriods_def)

lemma demo_missing1:
  "''2024Q4'' \<notin> set (missingPeriods series1)" "missingPeriods series1 \<noteq> []"
  by (simp_all add: series1_def blankSeries_def PERIODS_Q_def missingPeriods_def)

lemma demo_cand: "c_url candA = urlA" "c_text candA = []"
  by (simp_all add: candA_def)

lemma demo_auto_fill:
  "autoFillSeries demo_env (Some demo_stores_meta) ''stores'' demo_auto (emptyWorld, series0)
     = Some (world1, setValue ''2024Q4'' (Some 412) series0)"
proof -
  have c: "crawl demo_env w = ([candA], w)" for w by (simp add: demo_env_def candA_def)
  have s: "autoCandidate demo_env demo_stores_meta demo_auto candA
             (emptyWorld, series0, missingPeriods series0, 8)
           = Some (world1, setValue ''2024Q4'' (Some 412) series0,
                   removeAll ''2024Q4'' (missingPeriods series0), 8)"
    by (simp add: autoCandidate_def Let_def demo_cand demo_infer demo_missing0 demo_fetch_A
          demo_autoPeriod demo_autoValue)
  show ?thesis
    by (simp add: autoFillSeries_def c demo_meta_fields demo_rank_stores demo_missing0 s Let_def)
qed

lemma demo_auto_skip:
  "autoFillSeries demo_env (Some demo_stores_meta) ''stores'' demo_auto (world2, series1)
     = Some (world2, series1)"
proof -
  have c: "crawl demo_env w = ([candA], w)" for w by (simp add: demo_env_def candA_def)
  have s: "autoCandidate demo_env demo_stores_meta demo_auto candA
             (world2, series1, missingPeriods series1, 8)
           = Some (world2, series1, missingPeriods series1, 8)"
    by (simp add: autoCandidate_def Let_def demo_cand demo_infer demo_missing1)
  show ?thesis
    by (simp add: autoFillSeries_def c demo_meta_fields demo_rank_stores demo_missing1 s Let_def)
qed

lemma demo_hydrate:
  "hydrateSeries demo_env (Some demo_stores_meta) demo_kpi emptyWorld = Some (world2, series1)"
proof -
  have k: "k_key demo_kpi = ''stores''" "k_isRate demo_kpi = False" "k_series demo_kpi = blankSeries"
    "k_cfg demo_kpi = [entA, entB]" "k_hasDiscover demo_kpi = False" "k_auto demo_kpi = demo_auto"
    by (simp_all add: demo_kpi_def buildKpi_def)
  show ?thesis
    unfolding hydrateSeries_def
    by (simp add: k demo_meta_fields demo_explicit_1 demo_missing1 demo_auto_skip
          del: explicitLoop.simps cong: option.case_cong)
qed

lemma demo_auto_step:
  "autoCandidate demo_env demo_stores_meta demo_auto candA
     (emptyWorld, series0, missingPeriods series0, 8)
   = Some (world1, setValue ''2024Q4'' (Some 412) series0,
           removeAll ''2024Q4'' (missingPeriods series0), 8)"
  by (simp add: autoCandidate_def Let_def demo_cand demo_infer demo_missing0 demo_fetch_A
        demo_autoPeriod demo_autoValue)

lemma demo_series0:
  "distinct (map p_period series0)" "p_value (series0 ! 0) = Some 380" "0 < length series0"
  by (simp_all add: series0_def setValue_periods setValue_length blankSeries_shape
        blankSeries_def PERIODS_Q_def)

lemma demo_explicit_A:
  "explicitEntry demo_env ''count'' (Some 50) None entA (emptyWorld, blankSeries)
     = Some (world1, series1)"
  by (simp add: explicitEntry_def demo_entries demo_fetch_A demo_extract_A series1_def)

lemma demo_hydrate_off:
  "hydrateSeries demo_env (Some demo_stores_meta) demo_kpi_off emptyWorld = Some (world2, series1)"
  "hydrateSeries demo_env (Some demo_stores_meta) (demo_kpi_off\<lparr>k_series := series1\<rparr>) world2
     = Some (world3, series2)"
proof -
  have k: "k_isRate demo_kpi_off = False" "k_series demo_kpi_off = blankSeries"
    "k_cfg demo_kpi_off = [entA, entB]" "k_hasDiscover demo_kpi_off = False"
    "ac_enabled (k_auto demo_kpi_off) = False"
    by (simp_all add: demo_kpi_off_def buildKpi_def)
  show "hydrateSeries demo_env (Some demo_stores_meta) demo_kpi_off emptyWorld
          = Some (world2, series1)"
    unfolding hydrateSeries_def
    by (simp add: k demo_meta_fields demo_explicit_1
          del: explicitLoop.simps cong: option.case_cong)
  show "hydrateSeries demo_env (Some demo_stores_meta) (demo_kpi_off\<lparr>k_series := series1\<rparr>) world2
          = Some (world3, series2)"
    unfolding hydrateSeries_def
    by (simp add: k demo_meta_fields demo_explicit_2
          del: explicitLoop.simps cong: option.case_cong)
qed

lemma explicitEntry_assigns:
  assumes "e_period ent \<in> set PERIODS_Q" "e_url ent \<noteq> []" "e_pattern ent \<noteq> []"
    and "fetchDocument e (e_url ent) w = (Returns doc, w1)"
    and "extractValueFromText (regex e) (doc_folded doc) [e_pattern ent] unitKind lo hi None True
           = Some (Returns v)"
  shows "explicitEntry e unitKind lo hi ent (w, series)
           = Some (w1, setValue (e_period ent) v series)"
  using assms by (simp add: explicitEntry_def)

text \<open>
  Claim C5. \<^const>\<open>blankSeries\<close> has exactly 20 points, one per period of \<^const>\<open>PERIODS_Q\<close>, which
  lists the quarters 1 to 4 of the years 2021 to 2025 in that order without repetition, and
  every value is null; \<^const>\<open>buildKpi\<close> creates every series with it. Hydration touches values
  only: \<^const>\<open>setValue\<close>, the loop over the explicit entries, the automatic search and
  \<^const>\<open>hydrateSeries\<close> as a whole return a series with the same periods in the same order, so
  the series of a built indicator still has its 20 periods after hydration, whatever was
  filled.
\<close>

theorem hydration_preserves_shape:
  "length blankSeries = 20 \<and>
   map p_period blankSeries = PERIODS_Q \<and>
   PERIODS_Q = concat (map (\<lambda>y. map (\<lambda>q. y @ ''Q'' @ q) [''1'', ''2'', ''3'', ''4''])
                          [''2021'', ''2022'', ''2023'', ''2024'', ''2025'']) \<and>
   distinct PERIODS_Q \<and>
   list_all (\<lambda>x. p_value x = None) blankSeries \<and>
   k_series (buildKpi key isRate explicit hasDiscover auto) = blankSeries \<and>
   map p_period (setValue p v series) = map p_period series \<and>
   (explicitLoop e unitKind lo hi ents (w, series) = Some (w', series') \<longrightarrow>
      map p_period series' = map p_period series) \<and>
   (autoFillSeries e kpiMeta kpiKey cfg (w, series) = Some (w', series') \<longrightarrow>
      map p_period series' = map p_period series) \<and>
   (hydrateSeries e kpiMeta k w = Some (w', series') \<longrightarrow>
      map p_period series' = map p_period (k_series k)) \<and>
   (hydrateSeries e kpiMeta (buildKpi key isRate explicit hasDiscover auto) w = Some (w', series') \<longrightarrow>
      length series' = 20 \<and> map p_period series' = PERIODS_Q)"
proof -
  have b: "k_series (buildKpi key isRate explicit hasDiscover auto) = blankSeries"
    by (simp add: buildKpi_def)
  have h: "length series' = 20 \<and> map p_period series' = PERIODS_Q"
    if "hydrateSeries e kpiMeta (buildKpi key isRate explicit hasDiscover auto) w = Some (w', series')"
  proof -
    have m: "map p_period series' = PERIODS_Q"
      using hydrateSeries_periods [OF that] by (simp add: b blankSeries_shape(2))
    have "length (map p_period series') = length (map p_period blankSeries)"
      unfolding m blankSeries_shape(2) ..
    then have "length series' = 20"
      unfolding length_map blankSeries_shape(1) .
    then show ?thesis using m by blast
  qed
  show ?thesis
    apply (intro conjI impI)
              apply (rule blankSeries_shape(1))
             apply (rule blankSeries_shape(2))
            apply (rule blankSeries_shape(5))
           apply (rule blankSeries_shape(4))
          apply (rule blankSeries_shape(3))
         apply (rule b)
        apply (rule setValue_periods)
       apply (erule explicitLoop_periods)
      apply (erule autoFillSeries_periods)
     apply (erule hydrateSeries_periods)
    apply (drule h, erule conjunct1)
    apply (drule h, erule conjunct2)
    done
qed

text \<open>The theorem at the run of the example: after hydration the series holds 412 for 2024Q4 and still has its 20 periods.\<close>

theorem hydration_preserves_shape_witness:
  "hydrateSeries demo_env (Some demo_stores_meta)
       (buildKpi ''stores'' False [entA, entB] False demo_auto) emptyWorld
     = Some (world2, series1) \<and>
   lookupValue series1 ''2024Q4'' = Some (Some 412) \<and>
   length series1 = 20 \<and> map p_period series1 = PERIODS_Q"
proof -
  have r: "hydrateSeries demo_env (Some demo_stores_meta)
       (buildKpi ''stores'' False [entA, entB] False demo_auto) emptyWorld
     = Some (world2, series1)"
    using demo_hydrate by (simp add: demo_kpi_def)
  note T = hydration_preserves_shape [where e = demo_env and kpiMeta = "Some demo_stores_meta"
      and key = "''stores''" and isRate = False and explicit = "[entA, entB]"
      and hasDiscover = False and auto = demo_auto and w = emptyWorld and w' = world2
      and series' = series1]
  have "length series1 = 20 \<and> map p_period series1 = PERIODS_Q"
    using T r by blast
  then show ?thesis using r demo_lookup(1) by simp
qed

text \<open>
  Claim C1, as amended. The automatic search never overwrites: a run of
  \<^const>\<open>autoFillSeries\<close> on a series with distinct periods leaves every point whose value is
  not null as it was, because a candidate assigns only a period of the missing list and that
  period then leaves the list. The loop over the explicit and discovered entries has no such
  guard: an entry with a known period whose document is fetched and whose pattern runs
  assigns its extraction result, null included, to that period whatever the period held.
\<close>

theorem hydration_overwrite_rules:
  "(distinct (map p_period series) \<and>
    autoFillSeries e kpiMeta kpiKey cfg (w, series) = Some (w', series') \<longrightarrow>
      map p_period series' = map p_period series \<and>
      (\<forall>i<length series. p_value (series ! i) \<noteq> None \<longrightarrow> series' ! i = series ! i)) \<and>
   (autoCandidate e meta cfg item (w, series, missing, r) = Some (wa, sa, missinga, ra) \<longrightarrow>
      (sa = series \<and> missinga = missing) \<or>
      (\<exists>p x. p \<in> set missing \<and> sa = setValue p (Some x) series \<and>
             missinga = removeAll p missing)) \<and>
   (e_period ent \<in> set PERIODS_Q \<and> e_url ent \<noteq> [] \<and> e_pattern ent \<noteq> [] \<and>
    fetchDocument e (e_url ent) w = (Returns doc, wd) \<and>
    extractValueFromText (regex e) (doc_folded doc) [e_pattern ent] unitKind lo hi None True
      = Some (Returns v) \<longrightarrow>
      explicitEntry e unitKind lo hi ent (w, series)
        = Some (wd, setValue (e_period ent) v series)) \<and>
   (q \<in> set (map p_period series) \<longrightarrow> lookupValue (setValue q v series) q = Some v)"
proof (intro conjI impI)
  assume a: "distinct (map p_period series) \<and>
    autoFillSeries e kpiMeta kpiKey cfg (w, series) = Some (w', series')"
  show "map p_period series' = map p_period series"
    using a autoFillSeries_periods by blast
  show "\<forall>i<length series. p_value (series ! i) \<noteq> None \<longrightarrow> series' ! i = series ! i"
    using a autoFillSeries_keeps by blast
next
  assume "autoCandidate e meta cfg item (w, series, missing, r) = Some (wa, sa, missinga, ra)"
  then show "(sa = series \<and> missinga = missing) \<or>
      (\<exists>p x. p \<in> set missing \<and> sa = setValue p (Some x) series \<and>
             missinga = removeAll p missing)"
    by (rule autoCandidate_cases)
next
  assume "e_period ent \<in> set PERIODS_Q \<and> e_url ent \<noteq> [] \<and> e_pattern ent \<noteq> [] \<and>
    fetchDocument e (e_url ent) w = (Returns doc, wd) \<and>
    extractValueFromText (regex e) (doc_folded doc) [e_pattern ent] unitKind lo hi None True
      = Some (Returns v)"
  then show "explicitEntry e unitKind lo hi ent (w, series)
        = Some (wd, setValue (e_period ent) v series)"
    using explicitEntry_assigns by blast
next
  assume "q \<in> set (map p_period series)"
  then show "lookupValue (setValue q v series) q = Some v"
    by (simp add: lookupValue_setValue)
qed

text \<open>
  The theorem at the example: the automatic search fills 2024Q4 and leaves the 380 of 2021Q1
  alone, and the explicit entry for \<open>urlA\<close> assigns 412.
\<close>

theorem hydration_overwrite_rules_witness:
  "autoFillSeries demo_env (Some demo_stores_meta) ''stores'' demo_auto (emptyWorld, series0)
     = Some (world1, setValue ''2024Q4'' (Some 412) series0) \<and>
   p_value (series0 ! 0) = Some 380 \<and>
   setValue ''2024Q4'' (Some 412) series0 ! 0 = series0 ! 0 \<and>
   autoCandidate demo_env demo_stores_meta demo_auto candA
       (emptyWorld, series0, missingPeriods series0, 8)
     = Some (world1, setValue ''2024Q4'' (Some 412) series0,
             removeAll ''2024Q4'' (missingPeriods series0), 8) \<and>
   ((setValue ''2024Q4'' (Some 412) series0 = series0 \<and>
     removeAll ''2024Q4'' (missingPeriods series0) = missingPeriods series0) \<or>
    (\<exists>p x. p \<in> set (missingPeriods series0) \<and>
       setValue ''2024Q4'' (Some 412) series0 = setValue p (Some x) series0 \<and>
       removeAll ''2024Q4'' (missingPeriods series0) = removeAll p (missingPeriods series0))) \<and>
   ''2024Q4'' \<in> set (missingPeriods series0) \<and>
   explicitEntry demo_env ''count'' (Some 50) None entA (emptyWorld, blankSeries)
     = Some (world1, setValue ''2024Q4'' (Some 412) blankSeries) \<and>
   lookupValue (setValue ''2024Q4'' (Some 412) blankSeries) ''2024Q4'' = Some (Some 412)"
proof -
  note T = hydration_overwrite_rules [where e = demo_env and kpiMeta = "Some demo_stores_meta"
      and kpiKey = "''stores''" and cfg = demo_auto and w = emptyWorld and series = series0
      and w' = world1 and series' = "setValue ''2024Q4'' (Some 412) series0"
      and meta = demo_stores_meta and item = candA and missing = "missingPeriods series0"
      and r = 8 and sa = "setValue ''2024Q4'' (Some 412) series0"
      and missinga = "removeAll ''2024Q4'' (missingPeriods series0)" and ra = 8 and wa = world1
      and ent = entA and doc = docA and wd = world1 and unitKind = "''count''"
      and lo = "Some 50" and hi = None and v = "Some 412" and q = "''2024Q4''"]
  note U = hydration_overwrite_rules [where e = demo_env and ent = entA and doc = docA
      and w = emptyWorld and wd = world1 and unitKind = "''count''" and lo = "Some 50"
      and hi = None and v = "Some 412" and q = "''2024Q4''" and series = blankSeries]
  have 1: "\<forall>i<length series0. p_value (series0 ! i) \<noteq> None \<longrightarrow>
             setValue ''2024Q4'' (Some 412) series0 ! i = series0 ! i"
    using T [THEN conjunct1] demo_series0(1) demo_auto_fill by blast
  have 2: "setValue ''2024Q4'' (Some 412) series0 ! 0 = series0 ! 0"
    using 1 demo_series0(2,3) by simp
  have 3: "explicitEntry demo_env ''count'' (Some 50) None entA (emptyWorld, blankSeries)
     = Some (world1, setValue ''2024Q4'' (Some 412) blankSeries)"
    using U [THEN conjunct2, THEN conjunct2, THEN conjunct1] demo_entries demo_fetch_A
      demo_extract_A by simp
  have 4: "lookupValue (setValue ''2024Q4'' (Some 412) blankSeries) ''2024Q4'' = Some (Some 412)"
    using U [THEN conjunct2, THEN conjunct2, THEN conjunct2]
    by (simp add: blankSeries_shape(2) demo_entries)
  have 5: "(setValue ''2024Q4'' (Some 412) series0 = series0 \<and>
     removeAll ''2024Q4'' (missingPeriods series0) = missingPeriods series0) \<or>
    (\<exists>p x. p \<in> set (missingPeriods series0) \<and>
       setValue ''2024Q4'' (Some 412) series0 = setValue p (Some x) series0 \<and>
       removeAll ''2024Q4'' (missingPeriods series0) = removeAll p (missingPeriods series0))"
    using T [THEN conjunct2, THEN conjunct1] demo_auto_step by (rule mp)
  show ?thesis
    using demo_auto_fill demo_series0(2) 2 demo_auto_step 5 demo_missing0(1) 3 4
    by (intro conjI)
qed

text \<open>
  The claim as first stated fails on the explicit entries. With the automatic search switched
  off, a first hydration reads 412 from \<open>urlA\<close> for 2024Q4 while \<open>urlB\<close>, listed for the same
  period, fails to download. A second hydration over the same entries, on the series so
  filled, downloads \<open>urlB\<close>, finds no number there, and replaces the 412 by null.
\<close>

theorem explicit_entry_overwrites_counterexample:
  "hydrateSeries demo_env (Some demo_stores_meta) demo_kpi_off emptyWorld
     = Some (world2, series1) \<and>
   lookupValue series1 ''2024Q4'' = Some (Some 412) \<and>
   hydrateSeries demo_env (Some demo_stores_meta) (demo_kpi_off\<lparr>k_series := series1\<rparr>) world2
     = Some (world3, series2) \<and>
   lookupValue series2 ''2024Q4'' = Some None \<and>
   k_cfg (demo_kpi_off\<lparr>k_series := series1\<rparr>) = k_cfg demo_kpi_off"
  using demo_hydrate_off demo_lookup by simp

end
